theory Spec2Isabelle
  imports Complex_Main "HOL-Library.Word" "HOL-Library.AList" "HOL-Library.Log_Nat"
begin

section \<open>JavaScript values used by the grouping utilities\<close>

subsection \<open>Strings\<close>

text \<open>
  A JavaScript string is a sequence of 16-bit code units. String literals of the source
  are written \<open>js ''...''\<close>.
\<close>

type_synonym jsstring = "16 word list"

definition js :: "string \<Rightarrow> jsstring" where
  "js s = map (\<lambda>c. of_nat (of_char c)) s"

subsection \<open>Numbers\<close>

text \<open>
  A JavaScript number is an IEEE 754 binary64 value: a finite value, one of the two
  infinities, or NaN. Finite values are modelled as rationals (every finite double is
  one); \<open>Math.min\<close>, \<open>Math.max\<close> and the comparisons are exact on doubles, and the
  sums and quotients are rounded to the nearest double as the machine does. The sign of
  zero is not modelled (\<open>+0\<close> and \<open>-0\<close> are both \<open>Fin 0\<close>; both are falsy).
\<close>

datatype jsnum = Fin rat | PosInf | NegInf | NaN

fun isNaN :: "jsnum \<Rightarrow> bool" where
  "isNaN NaN = True"
| "isNaN _ = False"

text \<open>Truthiness of a number: \<open>0\<close> and \<open>NaN\<close> are falsy.\<close>

fun truthy :: "jsnum \<Rightarrow> bool" where
  "truthy (Fin x) = (x \<noteq> 0)"
| "truthy NaN = False"
| "truthy _ = True"

text \<open>
  Rounding of a rational to binary64: to the nearest double, ties to the even
  significand. \<open>pow2 k\<close> is 2 to the power \<open>k\<close>, and \<open>exponent a\<close>, for a positive \<open>a\<close>, is
  the \<open>e\<close> with \<open>pow2 e \<le> a < pow2 (e + 1)\<close>. A double has 53 significant bits, so
  the spacing of the doubles around \<open>a\<close> is \<open>pow2 (e - 52)\<close>, and \<open>pow2 (- 1074)\<close> for the
  subnormal numbers, below \<open>pow2 (- 1022)\<close>. A result that reaches \<open>pow2 1024\<close> after
  rounding overflows to an infinity.
\<close>

definition pow2 :: "int \<Rightarrow> rat" where
  "pow2 k = (if 0 \<le> k then 2 ^ nat k else 1 / 2 ^ nat (- k))"

definition exponent :: "rat \<Rightarrow> int" where
  "exponent a = (if 1 \<le> a then bitlen (floor a) - 1 else - bitlen (ceiling (1 / a) - 1))"

definition roundHalfEven :: "rat \<Rightarrow> int" where
  "roundHalfEven r =
     (let n = floor r in
      if r - of_int n < 1 / 2 then n
      else if 1 / 2 < r - of_int n then n + 1
      else if even n then n else n + 1)"

definition round64 :: "rat \<Rightarrow> jsnum" where
  "round64 x =
     (if x = 0 then Fin 0
      else let ulp = pow2 (max (exponent \<bar>x\<bar>) (- 1022) - 52);
               y = of_int (roundHalfEven (\<bar>x\<bar> / ulp)) * ulp
           in if pow2 1024 \<le> y then (if 0 < x then PosInf else NegInf)
              else Fin (sgn x * y))"

text \<open>The operator \<open>+\<close> on numbers.\<close>

fun js_add :: "jsnum \<Rightarrow> jsnum \<Rightarrow> jsnum" where
  "js_add NaN _ = NaN"
| "js_add _ NaN = NaN"
| "js_add (Fin a) (Fin b) = round64 (a + b)"
| "js_add PosInf NegInf = NaN"
| "js_add NegInf PosInf = NaN"
| "js_add PosInf _ = PosInf"
| "js_add _ PosInf = PosInf"
| "js_add NegInf _ = NegInf"
| "js_add _ NegInf = NegInf"

text \<open>
  The operator \<open>/\<close> with a divisor that is the \<open>length\<close> of an array: a non-negative
  integer, \<open>+0\<close> for the empty array.
\<close>

fun js_div_length :: "jsnum \<Rightarrow> nat \<Rightarrow> jsnum" where
  "js_div_length NaN n = NaN"
| "js_div_length PosInf n = PosInf"
| "js_div_length NegInf n = NegInf"
| "js_div_length (Fin a) n =
     (if n = 0 then (if a = 0 then NaN else if 0 < a then PosInf else NegInf)
      else round64 (a / of_nat n))"

text \<open>The relation \<open><\<close> on numbers; false as soon as one side is NaN.\<close>

fun js_less :: "jsnum \<Rightarrow> jsnum \<Rightarrow> bool" where
  "js_less NaN _ = False"
| "js_less _ NaN = False"
| "js_less (Fin a) (Fin b) = (a < b)"
| "js_less NegInf NegInf = False"
| "js_less NegInf _ = True"
| "js_less _ NegInf = False"
| "js_less PosInf _ = False"
| "js_less _ PosInf = True"

text \<open>
  \<open>Math.max(...xs)\<close> and \<open>Math.min(...xs)\<close>: NaN as soon as one argument is NaN, otherwise
  the largest (smallest) argument; without arguments \<open>-Infinity\<close> (\<open>+Infinity\<close>).
\<close>

definition Math_max :: "jsnum list \<Rightarrow> jsnum" where
  "Math_max xs =
     (if list_ex isNaN xs then NaN
      else foldl (\<lambda>highest n. if js_less highest n then n else highest) NegInf xs)"

definition Math_min :: "jsnum list \<Rightarrow> jsnum" where
  "Math_min xs =
     (if list_ex isNaN xs then NaN
      else foldl (\<lambda>lowest n. if js_less n lowest then n else lowest) PosInf xs)"

text \<open>\<open>Math.round\<close>: the nearest integer, ties towards \<open>+Infinity\<close>.\<close>

fun Math_round :: "jsnum \<Rightarrow> jsnum" where
  "Math_round (Fin a) = Fin (of_int (floor (a + 1 / 2)))"
| "Math_round x = x"

text \<open>lodash \<open>compact\<close> on an array of numbers: the falsy elements are removed.\<close>

definition compact :: "jsnum list \<Rightarrow> jsnum list" where
  "compact xs = filter truthy xs"

subsection \<open>Entities\<close>

text \<open>
  An entity has a key and a value: a number for a metric, a string for a parameter or a
  tag. A metric entity also has a step and a timestamp.
\<close>

record 'v Entity =
  key :: jsstring
  val :: 'v

record MetricEntity = "jsnum Entity" +
  step :: jsnum
  timestamp :: jsnum

section \<open>The synthetic aggregated metric history\<close>

text \<open>
  \<open>historyByStep\<close> is an object used as a dictionary from step numbers to arrays of
  entries. A property name made from a number never names a property of
  \<open>Object.prototype\<close>, so the object is an association list from steps to arrays.
\<close>

type_synonym historyByStep = "(jsnum \<times> MetricEntity list) list"

definition historyByStep_push :: "historyByStep \<Rightarrow> MetricEntity \<Rightarrow> historyByStep" where
  "historyByStep_push acc metricEntry =
     (let acc1 = (case map_of acc (step metricEntry) of
                    None \<Rightarrow> AList.update (step metricEntry) [] acc
                  | Some _ \<Rightarrow> acc)
      in AList.map_entry (step metricEntry) (\<lambda>entries. entries @ [metricEntry]) acc1)"

definition historyByStep_of :: "MetricEntity list \<Rightarrow> historyByStep" where
  "historyByStep_of history = foldl historyByStep_push [] history"

text \<open>\<open>historyByStep[step]?.map(f)\<close>, handed to \<open>compact\<close>, which reads undefined as empty.\<close>

definition compact_at :: "historyByStep \<Rightarrow> jsnum \<Rightarrow> (MetricEntity \<Rightarrow> jsnum) \<Rightarrow> jsnum list" where
  "compact_at h s f = (case map_of h s of None \<Rightarrow> compact [] | Some entries \<Rightarrow> compact (map f entries))"

definition average :: "jsnum list \<Rightarrow> jsnum" where
  "average values = js_div_length (foldl js_add (Fin 0) values) (length values)"

record SyntheticMetricHistory =
  history_min :: "MetricEntity list"
  history_max :: "MetricEntity list"
  history_average :: "MetricEntity list"

definition createAggregatedMetricHistory ::
  "jsnum list \<Rightarrow> jsstring \<Rightarrow> MetricEntity list \<Rightarrow> SyntheticMetricHistory" where
  "createAggregatedMetricHistory stepNumbers metricKey history =
     (let h = historyByStep_of history;
          averageTimestampsPerStep =
            map (\<lambda>s. Math_round (average (compact_at h s timestamp))) stepNumbers;
          syntheticHistoryMaxValues =
            map (\<lambda>(stepIndex, s).
                   \<lparr>key = metricKey, val = Math_max (compact_at h s val),
                    step = s, timestamp = averageTimestampsPerStep ! stepIndex\<rparr>)
                (List.enumerate 0 stepNumbers);
          syntheticHistoryMinValues =
            map (\<lambda>(stepIndex, s).
                   \<lparr>key = metricKey, val = Math_min (compact_at h s val),
                    step = s, timestamp = averageTimestampsPerStep ! stepIndex\<rparr>)
                (List.enumerate 0 stepNumbers);
          syntheticHistoryAverageValues =
            map (\<lambda>(stepIndex, s).
                   \<lparr>key = metricKey, val = average (compact_at h s val),
                    step = s, timestamp = averageTimestampsPerStep ! stepIndex\<rparr>)
                (List.enumerate 0 stepNumbers)
      in \<lparr>history_min = syntheticHistoryMinValues,
          history_max = syntheticHistoryMaxValues,
          history_average = syntheticHistoryAverageValues\<rparr>)"

section \<open>The codec of the grouping key\<close>

text \<open>
  Modelled from the spec: the string enums \<open>RunGroupingMode\<close> and
  \<open>RunGroupingAggregateFunction\<close> are declared in \<open>experimentPage.row-types\<close>, which is
  not among the sources. The spec gives their members as the lowercase tokens of
  Tag, Param, Dataset and of Min, Max, Average. At run time a member is its string.
\<close>

definition RunGroupingMode_Param :: jsstring where
  "RunGroupingMode_Param = js ''param''"

definition RunGroupingMode_Tag :: jsstring where
  "RunGroupingMode_Tag = js ''tag''"

definition RunGroupingMode_Dataset :: jsstring where
  "RunGroupingMode_Dataset = js ''dataset''"

definition RunGroupingMode_values :: "jsstring list" where
  "RunGroupingMode_values = [RunGroupingMode_Param, RunGroupingMode_Tag, RunGroupingMode_Dataset]"

definition RunGroupingAggregateFunction_Min :: jsstring where
  "RunGroupingAggregateFunction_Min = js ''min''"

definition RunGroupingAggregateFunction_Max :: jsstring where
  "RunGroupingAggregateFunction_Max = js ''max''"

definition RunGroupingAggregateFunction_Average :: jsstring where
  "RunGroupingAggregateFunction_Average = js ''average''"

definition RunGroupingAggregateFunction_values :: "jsstring list" where
  "RunGroupingAggregateFunction_values =
     [RunGroupingAggregateFunction_Min, RunGroupingAggregateFunction_Max,
      RunGroupingAggregateFunction_Average]"

record GroupByConfig =
  mode :: jsstring
  aggregateFunction :: jsstring
  groupByData :: jsstring

text \<open>\<open>Array.prototype.join\<close> on an array of strings.\<close>

fun join :: "jsstring \<Rightarrow> jsstring list \<Rightarrow> jsstring" where
  "join sep [] = []"
| "join sep [x] = x"
| "join sep (x # xs) = x @ sep @ join sep xs"

text \<open>An absent mode is \<open>None\<close>; the empty string is falsy as well.\<close>

definition createRunsGroupByKey :: "jsstring option \<Rightarrow> jsstring \<Rightarrow> jsstring \<Rightarrow> jsstring" where
  "createRunsGroupByKey mode' groupByData' aggregateFunction' =
     (case mode' of
        None \<Rightarrow> []
      | Some m \<Rightarrow> if m = [] then [] else join (js ''.'') [m, aggregateFunction', groupByData'])"

subsection \<open>The regular expression \<open>/([a-z]+)\.([a-z]+)\.(.+)/\<close>\<close>

text \<open>
  The expression has no flags, so it works on code units, \<open>.\<close> matches every code unit
  but the four line terminators, and \<open>match\<close> returns the leftmost match. The matcher
  backtracks: a greedy \<open>x+\<close> offers its matches from the longest to the shortest, and the
  first alternative on which the rest of the pattern matches wins.
\<close>

definition isLowerLetter :: "16 word \<Rightarrow> bool" where
  "isLowerLetter c \<longleftrightarrow> 97 \<le> c \<and> c \<le> 122"

definition isLineTerminator :: "16 word \<Rightarrow> bool" where
  "isLineTerminator c \<longleftrightarrow> c = 10 \<or> c = 13 \<or> c = 8232 \<or> c = 8233"

definition dot :: "16 word" where
  "dot = 46"

fun first_some :: "('a \<Rightarrow> 'b option) \<Rightarrow> 'a list \<Rightarrow> 'b option" where
  "first_some f [] = None"
| "first_some f (x # xs) = (case f x of Some y \<Rightarrow> Some y | None \<Rightarrow> first_some f xs)"

text \<open>
  The alternatives of a greedy \<open>x+\<close> at the start of \<open>s\<close>, where \<open>x\<close> is a class of code
  units: the matched text and the rest, longest match first, at least one code unit.
\<close>

definition plus_splits :: "(16 word \<Rightarrow> bool) \<Rightarrow> jsstring \<Rightarrow> (jsstring \<times> jsstring) list" where
  "plus_splits cls s =
     map (\<lambda>n. (take n s, drop n s)) (rev [1..<Suc (length (takeWhile cls s))])"

text \<open>The literal \<open>\.\<close> at the start of \<open>s\<close>, then the continuation on the rest.\<close>

definition literal_dot :: "jsstring \<Rightarrow> (jsstring \<Rightarrow> 'a option) \<Rightarrow> 'a option" where
  "literal_dot s continue = (case s of [] \<Rightarrow> None | c # rest \<Rightarrow> if c = dot then continue rest else None)"

definition match_here :: "jsstring \<Rightarrow> (jsstring \<times> jsstring \<times> jsstring) option" where
  "match_here s =
     first_some (\<lambda>(g1, r1). literal_dot r1 (\<lambda>r2.
       first_some (\<lambda>(g2, r3). literal_dot r3 (\<lambda>r4.
         first_some (\<lambda>(g3, r5). Some (g1, g2, g3))
           (plus_splits (\<lambda>c. \<not> isLineTerminator c) r4)))
         (plus_splits isLowerLetter r2)))
       (plus_splits isLowerLetter s)"

text \<open>\<open>groupByKey.match(...)\<close>: the start positions are tried from left to right.\<close>

definition match_groupByKey :: "jsstring \<Rightarrow> (jsstring \<times> jsstring \<times> jsstring) option" where
  "match_groupByKey s = first_some (\<lambda>i. match_here (drop i s)) [0..<Suc (length s)]"

definition parseRunsGroupByKey :: "jsstring option \<Rightarrow> GroupByConfig option" where
  "parseRunsGroupByKey groupByKey =
     (case groupByKey of
        None \<Rightarrow> None
      | Some k \<Rightarrow>
          if k = [] then None
          else (case match_groupByKey k of
                  None \<Rightarrow> None
                | Some (m, f, d) \<Rightarrow>
                    if m \<notin> set RunGroupingMode_values \<or> f \<notin> set RunGroupingAggregateFunction_values
                    then None
                    else Some \<lparr>mode = m, aggregateFunction = f, groupByData = d\<rparr>))"

section \<open>Objects used as dictionaries\<close>

text \<open>
  The accumulators of the module start as the object literal \<open>{}\<close> and are read with
  \<open>acc[key]\<close>. Such an object has own properties, and it inherits the properties of
  \<open>Object.prototype\<close>; reading \<open>acc[key]\<close> looks at both. The own properties are kept as an
  association list in the order of their creation.
\<close>

text \<open>The property names of \<open>Object.prototype\<close>; every one of them holds a truthy value.\<close>

definition objectPrototypeKeys :: "jsstring list" where
  "objectPrototypeKeys =
     [js ''constructor'', js ''__defineGetter__'', js ''__defineSetter__'',
      js ''hasOwnProperty'', js ''__lookupGetter__'', js ''__lookupSetter__'',
      js ''isPrototypeOf'', js ''propertyIsEnumerable'', js ''toString'', js ''valueOf'',
      js ''__proto__'', js ''toLocaleString'']"

text \<open>
  A property name is an array index when it is the canonical decimal form of an integer
  from \<open>0\<close> to \<open>2^32 - 2\<close>.
\<close>

definition isDigit :: "16 word \<Rightarrow> bool" where
  "isDigit c \<longleftrightarrow> 48 \<le> c \<and> c \<le> 57"

definition decimal :: "jsstring \<Rightarrow> nat" where
  "decimal s = foldl (\<lambda>n c. 10 * n + (unat c - 48)) 0 s"

definition isArrayIndex :: "jsstring \<Rightarrow> bool" where
  "isArrayIndex s \<longleftrightarrow>
     s \<noteq> [] \<and> list_all isDigit s \<and> (length s = 1 \<or> hd s \<noteq> 48) \<and> decimal s < 2 ^ 32 - 1"

text \<open>
  The order in which the own properties are enumerated (\<open>Object.keys\<close>, and with it
  lodash \<open>keys\<close>, \<open>values\<close> and \<open>entries\<close>): the array indices in ascending numeric order,
  then the other names in the order of their creation. \<open>propertyOrder\<close> is that order on
  the names alone, \<open>ownEntries\<close> on the properties.
\<close>

definition propertyOrder :: "jsstring list \<Rightarrow> jsstring list" where
  "propertyOrder ks = sort_key decimal (filter isArrayIndex ks) @ filter (\<lambda>k. \<not> isArrayIndex k) ks"

definition ownEntries :: "(jsstring \<times> 'v) list \<Rightarrow> (jsstring \<times> 'v) list" where
  "ownEntries props =
     sort_key (\<lambda>p. decimal (fst p)) (filter (\<lambda>p. isArrayIndex (fst p)) props)
     @ filter (\<lambda>p. \<not> isArrayIndex (fst p)) props"

text \<open>The distinct elements of a list in the order of their first occurrence.\<close>

definition firstOccurrences :: "'a list \<Rightarrow> 'a list" where
  "firstOccurrences xs = rev (remdups (rev xs))"

section \<open>Aggregation of the values of a group\<close>

text \<open>The exceptions the module can end with.\<close>

datatype error =
  TypeError
| Error jsstring

text \<open>
  The value of an aggregable entity is a string or a number. \<open>Number(value)\<close> is the
  value itself for a number; for a string it is the conversion of the language, which is a
  parameter of the model (\<open>toNumber\<close>).
\<close>

datatype jsvalue = VNum jsnum | VStr jsstring

fun Number :: "(jsstring \<Rightarrow> jsnum) \<Rightarrow> jsvalue \<Rightarrow> jsnum" where
  "Number toNumber (VNum n) = n"
| "Number toNumber (VStr s) = toNumber s"

text \<open>
  The accumulator of the Min and Max branch: the own properties, each holding an object
  \<open>{key, value}\<close>, and the object that an assignment to \<open>acc['__proto__']\<close> has made the
  prototype (\<open>None\<close> while the prototype is \<open>Object.prototype\<close>).
\<close>

record MinMaxAcc =
  props :: "(jsstring \<times> jsnum Entity) list"
  proto :: "jsnum Entity option"

text \<open>
  Reading \<open>acc[key]\<close> when \<open>key\<close> is not an own property: whether the inherited value is
  truthy, and \<open>Number(acc[key].value)\<close>. The name \<open>__proto__\<close> reads the prototype itself;
  a prototype set by the loop is an object \<open>{key, value}\<close> and is inherited from; a
  function, a string and a number have no property \<open>value\<close>, and \<open>Number(undefined)\<close> is
  NaN.
\<close>

definition inherited :: "jsnum Entity option \<Rightarrow> jsstring \<Rightarrow> bool \<times> jsnum" where
  "inherited p k =
     (if k = js ''__proto__'' then (True, case p of None \<Rightarrow> NaN | Some e \<Rightarrow> val e)
      else (case p of
              None \<Rightarrow> (k \<in> set objectPrototypeKeys, NaN)
            | Some e \<Rightarrow>
                if k = js ''key'' then (key e \<noteq> [], NaN)
                else if k = js ''value'' then (truthy (val e), NaN)
                else (k \<in> set objectPrototypeKeys, NaN)))"

text \<open>
  The assignment \<open>acc[key] = object\<close>: the name \<open>__proto__\<close> is the setter of the prototype,
  every other name creates or overwrites an own property.
\<close>

definition assign :: "MinMaxAcc \<Rightarrow> jsstring \<Rightarrow> jsnum Entity \<Rightarrow> MinMaxAcc" where
  "assign acc k object =
     (if k = js ''__proto__'' then acc\<lparr>proto := Some object\<rparr>
      else acc\<lparr>props := AList.update k object (props acc)\<rparr>)"

definition minmax_step ::
  "(jsnum list \<Rightarrow> jsnum) \<Rightarrow> (jsstring \<Rightarrow> jsnum) \<Rightarrow> MinMaxAcc \<Rightarrow> jsvalue Entity \<Rightarrow> MinMaxAcc" where
  "minmax_step aggregateMathFunction toNumber acc metric =
     (let k = key metric;
          (present, current) =
             (case map_of (props acc) k of
                Some own \<Rightarrow> (True, val own)
              | None \<Rightarrow> inherited (proto acc) k)
      in if \<not> present then assign acc k \<lparr>key = k, val = Number toNumber (val metric)\<rparr>
         else assign acc k
                \<lparr>key = k, val = aggregateMathFunction [current, Number toNumber (val metric)]\<rparr>)"

text \<open>
  The accumulator of the Average branch holds arrays. A name inherited from
  \<open>Object.prototype\<close> is truthy, so no array is created for it, and the value it holds has
  no method \<open>push\<close>: the call throws a TypeError.
\<close>

definition average_step ::
  "(jsstring \<Rightarrow> jsnum) \<Rightarrow> (jsstring \<times> jsnum list) list \<Rightarrow> jsvalue Entity
     \<Rightarrow> error + (jsstring \<times> jsnum list) list" where
  "average_step toNumber acc metric =
     (let k = key metric
      in case map_of acc k of
           Some values \<Rightarrow> Inr (AList.update k (values @ [Number toNumber (val metric)]) acc)
         | None \<Rightarrow>
             if k \<in> set objectPrototypeKeys then Inl TypeError
             else Inr (AList.update k ([] @ [Number toNumber (val metric)]) acc))"

text \<open>A loop whose body can throw: the first exception ends it.\<close>

fun foldE :: "('s \<Rightarrow> 'a \<Rightarrow> error + 's) \<Rightarrow> 's \<Rightarrow> 'a list \<Rightarrow> error + 's" where
  "foldE f s [] = Inr s"
| "foldE f s (x # xs) = (case f s x of Inl e \<Rightarrow> Inl e | Inr s' \<Rightarrow> foldE f s' xs)"

definition aggregateValues ::
  "(jsstring \<Rightarrow> jsnum) \<Rightarrow> jsvalue Entity list list \<Rightarrow> jsstring \<Rightarrow> error + jsnum Entity list" where
  "aggregateValues toNumber valuesByRun aggregateFunction' =
     (if aggregateFunction' = RunGroupingAggregateFunction_Min
         \<or> aggregateFunction' = RunGroupingAggregateFunction_Max
      then
        (let aggregateMathFunction =
               (if aggregateFunction' = RunGroupingAggregateFunction_Min then Math_min else Math_max);
             valuesMap =
               foldl (\<lambda>acc metricList. foldl (minmax_step aggregateMathFunction toNumber) acc metricList)
                 \<lparr>props = [], proto = None\<rparr> valuesByRun
         in Inr (filter (\<lambda>e. \<not> isNaN (val e)) (map snd (ownEntries (props valuesMap)))))
      else if aggregateFunction' = RunGroupingAggregateFunction_Average
      then
        (case foldE (\<lambda>acc metricList. foldE (average_step toNumber) acc metricList) [] valuesByRun of
           Inl e \<Rightarrow> Inl e
         | Inr valuesMap \<Rightarrow>
             Inr (filter (\<lambda>e. \<not> isNaN (val e))
                    (map (\<lambda>(k, values).
                            \<lparr>key = k,
                             val = js_div_length (foldl (\<lambda>acc value. js_add acc value) (Fin 0) values)
                                     (length values)\<rparr>)
                       (ownEntries valuesMap))))
      else Inl (Error (js ''Unsupported aggregate function: '' @ aggregateFunction')))"

text \<open>
  The numbers that \<open>aggregateValues\<close> is to combine for a key: the coerced values of the
  entities of that key, over the per-run lists in sequence.
\<close>

definition sameKeyValues :: "(jsstring \<Rightarrow> jsnum) \<Rightarrow> jsvalue Entity list list \<Rightarrow> jsstring \<Rightarrow> jsnum list" where
  "sameKeyValues toNumber valuesByRun k =
     map (\<lambda>e. Number toNumber (val e)) (filter (\<lambda>e. key e = k) (concat valuesByRun))"

section \<open>Runs and render records\<close>

text \<open>
  The types of a run are declared outside the module; the fields the module reads are
  kept. Runs are objects: the arrays of the module hold references to them, and
  \<open>includes\<close> compares references. A heap maps a reference to the run it points to.
\<close>

record RunInfoEntity =
  run_uuid :: jsstring

record Dataset =
  name :: jsstring
  digest :: jsstring

record RunDatasetWithTags =
  dataset :: Dataset

record SingleRunData =
  runInfo :: RunInfoEntity
  params :: "jsstring Entity list"
  metrics :: "MetricEntity list"
  tags :: "(jsstring \<times> jsstring Entity) list"
  datasets :: "RunDatasetWithTags list"

type_synonym ref = nat

type_synonym heap = "ref \<Rightarrow> SingleRunData"

text \<open>The value of a group: a string, a dataset, or the symbol of the remaining runs.\<close>

datatype RunGroupByValueType =
  GroupString jsstring
| GroupDataset Dataset
| RUN_GROUP_REMAINING_RUNS_SYMBOL

record RowGroupRenderMetadata =
  groupId :: jsstring
  isGroup :: bool
  expanderOpen :: bool
  runUuids :: "jsstring list"
  aggregatedMetricEntities :: "jsnum Entity list"
  aggregatedParamEntities :: "jsnum Entity list"
  groupValue :: RunGroupByValueType

record RowRenderMetadata =
  index :: nat
  level :: nat
  row_runInfo :: RunInfoEntity
  belongsToGroup :: bool
  isPinnable :: bool
  row_metrics :: "MetricEntity list"
  row_params :: "jsstring Entity list"
  row_tags :: "(jsstring \<times> jsstring Entity) list"
  row_datasets :: "RunDatasetWithTags list"
  rowUuid :: jsstring

datatype RenderMetadata =
  GroupRow RowGroupRenderMetadata
| RunRow RowRenderMetadata

text \<open>
  Modelled from the spec: the name of the parent-run tag, \<open>EXPERIMENT_PARENT_ID_TAG\<close>, is
  declared in \<open>experimentPage.common-utils\<close>, which is not among the sources; a run is
  pinnable when it has no value under that tag.
\<close>

definition EXPERIMENT_PARENT_ID_TAG :: jsstring where
  "EXPERIMENT_PARENT_ID_TAG = js ''mlflow.parentRunId''"

definition createGroupId :: "jsstring \<Rightarrow> jsstring \<Rightarrow> jsstring option \<Rightarrow> jsstring" where
  "createGroupId mode' groupByName groupByValue =
     (case groupByValue of
        None \<Rightarrow> mode' @ js ''.'' @ groupByName
      | Some v \<Rightarrow>
          if v \<noteq> [] then mode' @ js ''.'' @ groupByName @ js ''.'' @ v
          else mode' @ js ''.'' @ groupByName)"

text \<open>\<open>tags[name]?.value\<close> on the tags of a run.\<close>

definition tagValue :: "(jsstring \<times> jsstring Entity) list \<Rightarrow> jsstring \<Rightarrow> jsstring option" where
  "tagValue ts n = (case map_of ts n of None \<Rightarrow> None | Some e \<Rightarrow> Some (val e))"

definition createRunRow :: "heap \<Rightarrow> jsstring \<Rightarrow> bool \<Rightarrow> ref \<Rightarrow> RenderMetadata" where
  "createRunRow heap groupId' isRemainingRowsGroup run =
     RunRow \<lparr>index = 0, level = 0,
       row_runInfo = runInfo (heap run),
       belongsToGroup = (\<not> isRemainingRowsGroup),
       isPinnable =
         (case tagValue (tags (heap run)) EXPERIMENT_PARENT_ID_TAG of
            None \<Rightarrow> True
          | Some v \<Rightarrow> v = []),
       row_metrics = metrics (heap run),
       row_params = params (heap run),
       row_tags = tags (heap run),
       row_datasets = datasets (heap run),
       rowUuid = groupId' @ js ''.'' @ run_uuid (runInfo (heap run))\<rparr>"

text \<open>The metric lists and the parameter lists of the runs of a group, as aggregable entities.\<close>

definition metricsByRun :: "heap \<Rightarrow> ref list \<Rightarrow> jsvalue Entity list list" where
  "metricsByRun heap runsInGroup =
     map (\<lambda>run. map (\<lambda>m. \<lparr>key = key m, val = VNum (val m)\<rparr>) (metrics (heap run))) runsInGroup"

definition paramsByRun :: "heap \<Rightarrow> ref list \<Rightarrow> jsvalue Entity list list" where
  "paramsByRun heap runsInGroup =
     map (\<lambda>run. map (\<lambda>p. \<lparr>key = key p, val = VStr (val p)\<rparr>) (params (heap run))) runsInGroup"

definition createGroupRenderMetadata ::
  "(jsstring \<Rightarrow> jsnum) \<Rightarrow> heap \<Rightarrow> jsstring \<Rightarrow> bool \<Rightarrow> ref list \<Rightarrow> jsstring
     \<Rightarrow> RunGroupByValueType \<Rightarrow> bool \<Rightarrow> error + RenderMetadata list" where
  "createGroupRenderMetadata toNumber heap groupId' expanded runsInGroup aggregateFunction'
       groupValue' isRemainingRowsGroup =
     (case aggregateValues toNumber (metricsByRun heap runsInGroup) aggregateFunction' of
           Inl e \<Rightarrow> Inl e
         | Inr aggregatedMetrics \<Rightarrow>
             (case aggregateValues toNumber (paramsByRun heap runsInGroup) aggregateFunction' of
                Inl e \<Rightarrow> Inl e
              | Inr aggregatedParams \<Rightarrow>
                  (let groupHeaderMetadata =
                         \<lparr>groupId = groupId', isGroup = True, expanderOpen = expanded,
                          runUuids = map (\<lambda>run. run_uuid (runInfo (heap run))) runsInGroup,
                          aggregatedMetricEntities = aggregatedMetrics,
                          aggregatedParamEntities = aggregatedParams,
                          groupValue = groupValue'\<rparr>
                   in Inr (GroupRow groupHeaderMetadata
                           # (if expanded
                              then map (createRunRow heap groupId' isRemainingRowsGroup) runsInGroup
                              else [])))))"

text \<open>
  The two reads of the expand state: a concrete group is open unless its entry is
  \<open>false\<close>, the group of the remaining runs is open only when its entry is \<open>true\<close>. A
  group identifier holds a dot, so it names no inherited property of the state object.
\<close>

definition isGroupExpanded :: "(jsstring \<Rightarrow> bool option) \<Rightarrow> jsstring \<Rightarrow> bool" where
  "isGroupExpanded groupsExpanded groupId' \<longleftrightarrow>
     groupsExpanded groupId' = None \<or> groupsExpanded groupId' = Some True"

definition isRemainingGroupExpanded :: "(jsstring \<Rightarrow> bool option) \<Rightarrow> jsstring \<Rightarrow> bool" where
  "isRemainingGroupExpanded groupsExpanded groupId' \<longleftrightarrow> groupsExpanded groupId' = Some True"

text \<open>\<open>result.push(...f(x))\<close> for every \<open>x\<close>, where \<open>f\<close> can throw.\<close>

fun concatMapE :: "('a \<Rightarrow> error + 'b list) \<Rightarrow> 'a list \<Rightarrow> error + 'b list" where
  "concatMapE f [] = Inr []"
| "concatMapE f (x # xs) =
     (case f x of
        Inl e \<Rightarrow> Inl e
      | Inr ys \<Rightarrow> (case concatMapE f xs of Inl e \<Rightarrow> Inl e | Inr zs \<Rightarrow> Inr (ys @ zs)))"

text \<open>The group of the remaining runs, emitted when there is at least one such run.\<close>

definition remainingRunsGroup ::
  "(jsstring \<Rightarrow> jsnum) \<Rightarrow> heap \<Rightarrow> (jsstring \<Rightarrow> bool option) \<Rightarrow> jsstring \<Rightarrow> jsstring \<Rightarrow> jsstring
     \<Rightarrow> ref list \<Rightarrow> error + RenderMetadata list" where
  "remainingRunsGroup toNumber heap groupsExpanded aggregateFunction' mode' groupByKey ungroupedRuns =
     (if ungroupedRuns \<noteq> []
      then (let groupId' = createGroupId mode' groupByKey None
            in createGroupRenderMetadata toNumber heap groupId'
                 (isRemainingGroupExpanded groupsExpanded groupId') ungroupedRuns aggregateFunction'
                 RUN_GROUP_REMAINING_RUNS_SYMBOL True)
      else Inr [])"

section \<open>Grouping by the value of a tag or of a parameter\<close>

text \<open>
  The loop of \<open>createRunsGroupedByValue\<close>. \<open>groups\<close> starts as \<open>{}\<close>: a value that names a
  property of \<open>Object.prototype\<close> reads as truthy, no array is created for it, and the
  inherited value has no method \<open>push\<close>.
\<close>

definition groupByValue_step ::
  "heap \<Rightarrow> (SingleRunData \<Rightarrow> jsstring option) \<Rightarrow> (jsstring \<times> ref list) list \<times> ref list \<Rightarrow> ref
     \<Rightarrow> error + (jsstring \<times> ref list) list \<times> ref list" where
  "groupByValue_step heap valueGetter state run =
     (case state of (groups, ungroupedRuns) \<Rightarrow>
        (case valueGetter (heap run) of
           None \<Rightarrow> Inr (groups, ungroupedRuns @ [run])
         | Some valueForRun \<Rightarrow>
             if valueForRun = [] then Inr (groups, ungroupedRuns @ [run])
             else (case map_of groups valueForRun of
                     Some runs \<Rightarrow> Inr (AList.update valueForRun (runs @ [run]) groups, ungroupedRuns)
                   | None \<Rightarrow>
                       if valueForRun \<in> set objectPrototypeKeys then Inl TypeError
                       else Inr (AList.update valueForRun ([] @ [run]) groups, ungroupedRuns))))"

text \<open>
  The value a run is grouped under: the value its getter extracts when that value is
  present and not empty; \<open>None\<close> for a run that goes to the remaining runs.
\<close>

definition groupingValue :: "heap \<Rightarrow> (SingleRunData \<Rightarrow> jsstring option) \<Rightarrow> ref \<Rightarrow> jsstring option" where
  "groupingValue heap valueGetter run =
     (case valueGetter (heap run) of None \<Rightarrow> None | Some v \<Rightarrow> if v = [] then None else Some v)"

definition createRunsGroupedByValue ::
  "(jsstring \<Rightarrow> jsnum) \<Rightarrow> heap \<Rightarrow> (SingleRunData \<Rightarrow> jsstring option) \<Rightarrow> ref list
     \<Rightarrow> (jsstring \<Rightarrow> bool option) \<Rightarrow> jsstring \<Rightarrow> jsstring \<Rightarrow> jsstring
     \<Rightarrow> error + RenderMetadata list" where
  "createRunsGroupedByValue toNumber heap valueGetter runData groupsExpanded aggregateFunction'
       groupByMode groupByKey =
     (case foldE (groupByValue_step heap valueGetter) ([], []) runData of
        Inl e \<Rightarrow> Inl e
      | Inr (groups, ungroupedRuns) \<Rightarrow>
          (case concatMapE
                  (\<lambda>(tagValue', runs).
                     (let groupId' = createGroupId groupByMode groupByKey (Some tagValue')
                      in createGroupRenderMetadata toNumber heap groupId'
                           (isGroupExpanded groupsExpanded groupId') runs aggregateFunction'
                           (GroupString tagValue') False))
                  (ownEntries groups) of
             Inl e \<Rightarrow> Inl e
           | Inr result \<Rightarrow>
               (case remainingRunsGroup toNumber heap groupsExpanded aggregateFunction'
                       groupByMode groupByKey ungroupedRuns of
                  Inl e \<Rightarrow> Inl e
                | Inr remaining \<Rightarrow> Inr (result @ remaining))))"

section \<open>Grouping by dataset\<close>

definition dataset_identifier :: "Dataset \<Rightarrow> jsstring" where
  "dataset_identifier d = name d @ js ''.'' @ digest d"

text \<open>lodash \<open>uniqBy\<close>: the first element of every key is kept.\<close>

definition uniqBy :: "('a \<Rightarrow> 'b) \<Rightarrow> 'a list \<Rightarrow> 'a list" where
  "uniqBy f xs = foldl (\<lambda>result x. if f x \<in> f ` set result then result else result @ [x]) [] xs"

definition getUniqueDatasets :: "heap \<Rightarrow> ref list \<Rightarrow> (Dataset \<times> jsstring) list" where
  "getUniqueDatasets heap runData =
     uniqBy snd
       (concat (map (\<lambda>r. map (\<lambda>d. (dataset d, dataset_identifier (dataset d))) (datasets (heap r))) runData))"

record DatasetGroup =
  group_dataset :: Dataset
  group_runs :: "ref list"

text \<open>
  \<open>mapValues(keyBy(uniqueDatasets, 'identifier'), ...)\<close>: an object with one own property
  for every identifier, created in the order of enumeration of the keyed object.
\<close>

definition keyBy :: "('a \<Rightarrow> jsstring) \<Rightarrow> 'a list \<Rightarrow> (jsstring \<times> 'a) list" where
  "keyBy f xs = foldl (\<lambda>result x. AList.update (f x) x result) [] xs"

definition mapValues :: "('a \<Rightarrow> 'b) \<Rightarrow> (jsstring \<times> 'a) list \<Rightarrow> (jsstring \<times> 'b) list" where
  "mapValues f object = map (\<lambda>(k, v). (k, f v)) (ownEntries object)"

text \<open>
  The loop over the runs. An identifier holds a dot, so \<open>groups[datasetIdentifier]\<close> is
  truthy exactly when it is an own property. \<open>includes\<close> compares references.
\<close>

definition pushRunOnce ::
  "ref \<Rightarrow> (jsstring \<times> DatasetGroup) list \<Rightarrow> jsstring \<Rightarrow> (jsstring \<times> DatasetGroup) list" where
  "pushRunOnce run groups datasetIdentifier =
     (case map_of groups datasetIdentifier of
        None \<Rightarrow> groups
      | Some grp \<Rightarrow>
          if run \<notin> set (group_runs grp)
          then AList.update datasetIdentifier (grp\<lparr>group_runs := group_runs grp @ [run]\<rparr>) groups
          else groups)"

definition runDatasetIdentifiers :: "heap \<Rightarrow> ref \<Rightarrow> jsstring list" where
  "runDatasetIdentifiers heap run = map (\<lambda>d. dataset_identifier (dataset d)) (datasets (heap run))"

definition groupByDataset_step ::
  "heap \<Rightarrow> (jsstring \<times> DatasetGroup) list \<times> ref list \<Rightarrow> ref
     \<Rightarrow> (jsstring \<times> DatasetGroup) list \<times> ref list" where
  "groupByDataset_step heap state run =
     (case state of (groups, ungroupedRuns) \<Rightarrow>
        (let runDatasetIdenfifiers = runDatasetIdentifiers heap run
         in (foldl (pushRunOnce run) groups runDatasetIdenfifiers,
             if runDatasetIdenfifiers = [] then ungroupedRuns @ [run] else ungroupedRuns)))"

definition datasetGroups :: "heap \<Rightarrow> ref list \<Rightarrow> (jsstring \<times> DatasetGroup) list \<times> ref list" where
  "datasetGroups heap runData =
     foldl (groupByDataset_step heap)
       (mapValues (\<lambda>u. \<lparr>group_dataset = fst u, group_runs = []\<rparr>) (keyBy snd (getUniqueDatasets heap runData)),
        [])
       runData"

definition createRunsGroupedByDataset ::
  "(jsstring \<Rightarrow> jsnum) \<Rightarrow> heap \<Rightarrow> ref list \<Rightarrow> (jsstring \<Rightarrow> bool option) \<Rightarrow> jsstring \<Rightarrow> jsstring
     \<Rightarrow> error + RenderMetadata list" where
  "createRunsGroupedByDataset toNumber heap runData groupsExpanded aggregateFunction' groupByKey =
     (case datasetGroups heap runData of (groups, ungroupedRuns) \<Rightarrow>
        (case concatMapE
                (\<lambda>(datasetDigest, grp).
                   (let groupId' = createGroupId RunGroupingMode_Dataset groupByKey (Some datasetDigest)
                    in createGroupRenderMetadata toNumber heap groupId'
                         (isGroupExpanded groupsExpanded groupId') (group_runs grp) aggregateFunction'
                         (GroupDataset (group_dataset grp)) False))
                (ownEntries groups) of
           Inl e \<Rightarrow> Inl e
         | Inr result \<Rightarrow>
             (case remainingRunsGroup toNumber heap groupsExpanded aggregateFunction'
                     RunGroupingMode_Dataset groupByKey ungroupedRuns of
                Inl e \<Rightarrow> Inl e
              | Inr remaining \<Rightarrow> Inr (result @ remaining))))"

section \<open>The entry point\<close>

text \<open>The result \<open>null\<close> is \<open>None\<close>.\<close>

definition getGroupedRowRenderMetadata ::
  "(jsstring \<Rightarrow> jsnum) \<Rightarrow> heap \<Rightarrow> (jsstring \<Rightarrow> bool option) \<Rightarrow> ref list \<Rightarrow> GroupByConfig
     \<Rightarrow> error + RenderMetadata list option" where
  "getGroupedRowRenderMetadata toNumber heap groupsExpanded runData groupByConfig =
     (if mode groupByConfig = RunGroupingMode_Tag \<or> mode groupByConfig = RunGroupingMode_Param
      then
        (let valueGetter =
               (if mode groupByConfig = RunGroupingMode_Tag
                then (\<lambda>run. tagValue (tags run) (groupByData groupByConfig))
                else (\<lambda>run. (case find (\<lambda>param. key param = groupByData groupByConfig) (params run) of
                               None \<Rightarrow> None
                             | Some param \<Rightarrow> Some (val param))))
         in (case createRunsGroupedByValue toNumber heap valueGetter runData groupsExpanded
                    (aggregateFunction groupByConfig) (mode groupByConfig) (groupByData groupByConfig) of
               Inl e \<Rightarrow> Inl e
             | Inr result \<Rightarrow> Inr (Some result)))
      else if mode groupByConfig = RunGroupingMode_Dataset
      then
        (case createRunsGroupedByDataset toNumber heap runData groupsExpanded
                (aggregateFunction groupByConfig) (groupByData groupByConfig) of
           Inl e \<Rightarrow> Inl e
         | Inr result \<Rightarrow> Inr (Some result))
      else Inr None)"

section \<open>Properties of the arithmetic\<close>

lemma bitlen_numeral_eval:
  "bitlen 1 = 1"
  "bitlen (numeral (Num.Bit0 k)) = bitlen (numeral k) + 1"
  "bitlen (numeral (Num.Bit1 k)) = bitlen (numeral k) + 1"
  by (subst compute_bitlen, simp)+

lemma floor_rat_numeral:
  "\<lfloor>numeral a / numeral b :: rat\<rfloor> = numeral a div numeral b"
  "\<lfloor>numeral a :: rat\<rfloor> = numeral a"
  using floor_divide_of_int_eq [of "numeral a" "numeral b", where ?'a = rat] by simp_all

lemma ceiling_rat_numeral:
  "\<lceil>numeral a / numeral b :: rat\<rceil> = - (- numeral a div numeral b)"
  using floor_divide_of_int_eq [of "- numeral a" "numeral b", where ?'a = rat]
  by (simp add: ceiling_def)

lemma roundHalfEven_of_int: "roundHalfEven (of_int m) = m"
  by (simp add: roundHalfEven_def)

text \<open>Every integer below \<open>2 ^ 53\<close> in absolute value is a double: rounding leaves it as it is.\<close>

lemma round64_of_int:
  assumes "\<bar>n\<bar> < 2 ^ 53"
  shows "round64 (of_int n) = Fin (of_int n)"
proof (cases "n = 0")
  case True
  then show ?thesis by (simp add: round64_def)
next
  case False
  define m where "m = \<bar>n\<bar>"
  define e where "e = bitlen m - 1"
  from False have m: "0 < m" "m < 2 ^ 53" using assms by (simp_all add: m_def)
  then have "bitlen m \<le> 53" by (simp add: bitlen_le_iff_power)
  moreover from m have "1 \<le> bitlen m" by (simp add: bitlen_ge_iff_power)
  ultimately have e: "0 \<le> e" "e \<le> 52" by (simp_all add: e_def)
  have abs: "\<bar>of_int n :: rat\<bar> = of_int m" by (simp add: m_def)
  from m have ex: "exponent (of_int m) = e" by (simp add: exponent_def e_def)
  from e have ulp: "pow2 (max e (- 1022) - 52) = 1 / 2 ^ nat (52 - e)"
    by (simp add: pow2_def max_def)
  have quot: "(of_int m :: rat) / (1 / 2 ^ nat (52 - e)) = of_int (m * 2 ^ nat (52 - e))"
    by simp
  have y: "of_int (roundHalfEven (of_int m / (1 / 2 ^ nat (52 - e)))) * (1 / 2 ^ nat (52 - e)) = (of_int m :: rat)"
    unfolding quot roundHalfEven_of_int by simp
  have "(of_int m :: rat) < of_int (2 ^ 53)" using m(2) by (simp only: of_int_less_iff)
  also have "\<dots> < pow2 1024" by (simp add: pow2_def)
  finally have small: "\<not> pow2 1024 \<le> (of_int m :: rat)" by simp
  have sg: "sgn (of_int n :: rat) * of_int m = of_int n"
    by (simp add: m_def sgn_if)
  from False show ?thesis
    unfolding round64_def abs ex ulp Let_def y using small sg by simp
qed

lemma round64_numeral [simp]:
  "numeral k < (9007199254740992::int) \<Longrightarrow> round64 (numeral k) = Fin (numeral k)"
  "round64 0 = Fin 0"
  "round64 1 = Fin 1"
  using round64_of_int [of "numeral k"] round64_of_int [of 1] by (simp_all add: round64_def)

lemmas round64_eval = round64_def exponent_def pow2_def roundHalfEven_def Let_def
  bitlen_numeral_eval floor_rat_numeral ceiling_rat_numeral

text \<open>The exponent of a positive rational brackets it between two powers of 2.\<close>

lemma exponent_bounds:
  assumes "0 < a"
  shows "pow2 (exponent a) \<le> a \<and> a < pow2 (exponent a + 1)"
proof (cases "1 \<le> a")
  case True
  define n where "n = \<lfloor>a\<rfloor>"
  from True have n: "0 < n" by (simp add: n_def)
  from bitlen_bounds [OF n] have lo: "2 ^ nat (bitlen n - 1) \<le> n" and hi: "n < 2 ^ nat (bitlen n)"
    by simp_all
  from n have b: "1 \<le> bitlen n" by (simp add: bitlen_ge_iff_power)
  have "(2::rat) ^ nat (bitlen n - 1) = of_int (2 ^ nat (bitlen n - 1))" by simp
  also have "\<dots> \<le> of_int n" using lo by (simp only: of_int_le_iff)
  also have "\<dots> \<le> a" by (simp add: n_def)
  finally have 1: "(2::rat) ^ nat (bitlen n - 1) \<le> a" .
  from hi have "n + 1 \<le> 2 ^ nat (bitlen n)" by simp
  then have "(of_int (n + 1) :: rat) \<le> of_int (2 ^ nat (bitlen n))" by (simp only: of_int_le_iff)
  moreover have "a < of_int (n + 1)" unfolding n_def by linarith
  ultimately have 2: "a < 2 ^ nat (bitlen n)" by simp
  from True b 1 2 show ?thesis by (simp add: exponent_def pow2_def n_def [symmetric])
next
  case False
  define k where "k = \<lceil>1 / a\<rceil> - 1"
  from False assms have inv: "1 < 1 / a" by simp
  then have "1 < \<lceil>1 / a\<rceil>" by (simp add: less_ceiling_iff)
  then have k: "0 < k" by (simp add: k_def)
  from bitlen_bounds [OF k] have lo: "2 ^ nat (bitlen k - 1) \<le> k" and hi: "k < 2 ^ nat (bitlen k)"
    by simp_all
  from k have b: "1 \<le> bitlen k" by (simp add: bitlen_ge_iff_power)
  have "1 / a \<le> of_int (k + 1)" unfolding k_def by simp
  also from hi have "k + 1 \<le> 2 ^ nat (bitlen k)" by simp
  then have "(of_int (k + 1) :: rat) \<le> of_int (2 ^ nat (bitlen k))" by (simp only: of_int_le_iff)
  finally have "1 / a \<le> 2 ^ nat (bitlen k)" by simp
  with assms have 1: "1 / 2 ^ nat (bitlen k) \<le> a"
    by (simp add: field_simps)
  have "(2::rat) ^ nat (bitlen k - 1) = of_int (2 ^ nat (bitlen k - 1))" by simp
  also have "\<dots> \<le> of_int k" using lo by (simp only: of_int_le_iff)
  also have "\<dots> < 1 / a" unfolding k_def by linarith
  finally have "(2::rat) ^ nat (bitlen k - 1) < 1 / a" .
  with assms have 2: "a < 1 / 2 ^ nat (bitlen k - 1)"
    by (simp add: field_simps)
  have eq: "nat (bitlen k - 1) = nat (bitlen k) - 1" by simp
  from False b 1 2 show ?thesis
    by (auto simp add: exponent_def pow2_def k_def [symmetric] eq)
qed

text \<open>
  The sums and quotients of the source are rounded: \<open>5 / 3\<close> is 1.6666666666666667,
  \<open>0.1 + 0.2\<close> is 0.30000000000000004, the sum of two numbers of the size of \<open>1e308\<close>
  is \<open>Infinity\<close>, and the largest double is a fixed point of the rounding.
\<close>

lemma js_arithmetic_examples:
  "js_div_length (Fin 5) 3 = Fin (7505999378950827 / 4503599627370496)"
  "round64 (1 / 10) = Fin (3602879701896397 / 36028797018963968)"
  "round64 (1 / 5) = Fin (3602879701896397 / 18014398509481984)"
  "js_add (Fin (3602879701896397 / 36028797018963968)) (Fin (3602879701896397 / 18014398509481984))
     = Fin (1351079888211149 / 4503599627370496)"
  "round64 (3 / 10) = Fin (5404319552844595 / 18014398509481984)"
  "js_add (Fin (2 ^ 1023)) (Fin (2 ^ 1023)) = PosInf"
  "js_add (Fin (- (2 ^ 1023))) (Fin (- (2 ^ 1023))) = NegInf"
  "round64 ((2 ^ 53 - 1) * 2 ^ 971) = Fin ((2 ^ 53 - 1) * 2 ^ 971)"
  by (simp_all add: round64_eval)

section \<open>Properties of the synthetic aggregated metric history\<close>

lemma map_of_historyByStep_push:
  "map_of (historyByStep_push acc e) s =
     (if s = step e then Some ((case map_of acc s of None \<Rightarrow> [] | Some es \<Rightarrow> es) @ [e])
      else map_of acc s)"
  by (simp add: historyByStep_push_def Let_def map_of_map_entry update_conv' split: option.split)

lemma map_of_foldl_historyByStep_push:
  "map_of (foldl historyByStep_push acc hs) s =
     (case map_of acc s of
        None \<Rightarrow> (if filter (\<lambda>e. step e = s) hs = [] then None else Some (filter (\<lambda>e. step e = s) hs))
      | Some es \<Rightarrow> Some (es @ filter (\<lambda>e. step e = s) hs))"
proof (induction hs arbitrary: acc)
  case Nil
  show ?case by (simp split: option.split)
next
  case (Cons h hs)
  show ?case by (simp add: Cons.IH map_of_historyByStep_push split: option.split)
qed

text \<open>The entries the dictionary holds under a step are the entries of that step, in order.\<close>

lemma compact_at_historyByStep_of:
  "compact_at (historyByStep_of history) s f =
     filter truthy (map f (filter (\<lambda>e. step e = s) history))"
  by (simp add: compact_at_def historyByStep_of_def map_of_foldl_historyByStep_push compact_def)

lemma history_min_nth:
  "i < length stepNumbers \<Longrightarrow>
   history_min (createAggregatedMetricHistory stepNumbers k history) ! i =
     \<lparr>key = k, val = Math_min (compact_at (historyByStep_of history) (stepNumbers ! i) val),
      step = stepNumbers ! i,
      timestamp = Math_round (average (compact_at (historyByStep_of history) (stepNumbers ! i) timestamp))\<rparr>"
  by (simp add: createAggregatedMetricHistory_def Let_def nth_enumerate_eq)

lemma history_max_nth:
  "i < length stepNumbers \<Longrightarrow>
   history_max (createAggregatedMetricHistory stepNumbers k history) ! i =
     \<lparr>key = k, val = Math_max (compact_at (historyByStep_of history) (stepNumbers ! i) val),
      step = stepNumbers ! i,
      timestamp = Math_round (average (compact_at (historyByStep_of history) (stepNumbers ! i) timestamp))\<rparr>"
  by (simp add: createAggregatedMetricHistory_def Let_def nth_enumerate_eq)

lemma history_average_nth:
  "i < length stepNumbers \<Longrightarrow>
   history_average (createAggregatedMetricHistory stepNumbers k history) ! i =
     \<lparr>key = k, val = average (compact_at (historyByStep_of history) (stepNumbers ! i) val),
      step = stepNumbers ! i,
      timestamp = Math_round (average (compact_at (historyByStep_of history) (stepNumbers ! i) timestamp))\<rparr>"
  by (simp add: createAggregatedMetricHistory_def Let_def nth_enumerate_eq)

lemma truthy_iff: "truthy v \<longleftrightarrow> v \<noteq> Fin 0 \<and> v \<noteq> NaN"
  by (cases v) simp_all

text \<open>
  Claim C2, as stated, fails: at step 2 of the example no entry contributes, and the
  value of the min series there is not NaN (it is \<open>+Infinity\<close>, the value of \<open>Math.min()\<close>).
\<close>

theorem aggregated_history_empty_step_counterexample:
  "\<not> (isNaN (val (history_min (createAggregatedMetricHistory [Fin 1, Fin 2] (js ''loss'')
           [\<lparr>key = js ''loss'', val = Fin 1, step = Fin 1, timestamp = Fin 100\<rparr>,
            \<lparr>key = js ''loss'', val = Fin 3, step = Fin 1, timestamp = Fin 200\<rparr>]) ! 1))
      \<and> isNaN (val (history_max (createAggregatedMetricHistory [Fin 1, Fin 2] (js ''loss'')
           [\<lparr>key = js ''loss'', val = Fin 1, step = Fin 1, timestamp = Fin 100\<rparr>,
            \<lparr>key = js ''loss'', val = Fin 3, step = Fin 1, timestamp = Fin 200\<rparr>]) ! 1))
      \<and> isNaN (val (history_average (createAggregatedMetricHistory [Fin 1, Fin 2] (js ''loss'')
           [\<lparr>key = js ''loss'', val = Fin 1, step = Fin 1, timestamp = Fin 100\<rparr>,
            \<lparr>key = js ''loss'', val = Fin 3, step = Fin 1, timestamp = Fin 200\<rparr>]) ! 1)))"
  by (simp add: history_min_nth compact_at_historyByStep_of Math_min_def)

text \<open>
  Claim C2, amended: at a requested step that no history entry has, the average series
  carries NaN, the min series \<open>+Infinity\<close>, the max series \<open>-Infinity\<close>, and the timestamp
  is NaN in the three series; and for the example input the point of step 1 has Min 1,
  Max 3, Average 2 and timestamp 150 in every series.
\<close>

theorem aggregated_history_empty_step:
  assumes "i < length stepNumbers"
    and "\<forall>e \<in> set history. step e \<noteq> stepNumbers ! i"
  shows "val (history_average (createAggregatedMetricHistory stepNumbers k history) ! i) = NaN
       \<and> val (history_min (createAggregatedMetricHistory stepNumbers k history) ! i) = PosInf
       \<and> val (history_max (createAggregatedMetricHistory stepNumbers k history) ! i) = NegInf
       \<and> timestamp (history_average (createAggregatedMetricHistory stepNumbers k history) ! i) = NaN
       \<and> timestamp (history_min (createAggregatedMetricHistory stepNumbers k history) ! i) = NaN
       \<and> timestamp (history_max (createAggregatedMetricHistory stepNumbers k history) ! i) = NaN
       \<and> createAggregatedMetricHistory [Fin 1, Fin 2] (js ''loss'')
            [\<lparr>key = js ''loss'', val = Fin 1, step = Fin 1, timestamp = Fin 100\<rparr>,
             \<lparr>key = js ''loss'', val = Fin 3, step = Fin 1, timestamp = Fin 200\<rparr>]
          = \<lparr>history_min =
               [\<lparr>key = js ''loss'', val = Fin 1, step = Fin 1, timestamp = Fin 150\<rparr>,
                \<lparr>key = js ''loss'', val = PosInf, step = Fin 2, timestamp = NaN\<rparr>],
             history_max =
               [\<lparr>key = js ''loss'', val = Fin 3, step = Fin 1, timestamp = Fin 150\<rparr>,
                \<lparr>key = js ''loss'', val = NegInf, step = Fin 2, timestamp = NaN\<rparr>],
             history_average =
               [\<lparr>key = js ''loss'', val = Fin 2, step = Fin 1, timestamp = Fin 150\<rparr>,
                \<lparr>key = js ''loss'', val = NaN, step = Fin 2, timestamp = NaN\<rparr>]\<rparr>"
proof -
  have "filter (\<lambda>e. step e = stepNumbers ! i) history = []"
    using assms(2) by (simp add: filter_empty_conv)
  then have none: "compact_at (historyByStep_of history) (stepNumbers ! i) f = []" for f
    by (simp add: compact_at_historyByStep_of)
  have general:
    "val (history_average (createAggregatedMetricHistory stepNumbers k history) ! i) = NaN
     \<and> val (history_min (createAggregatedMetricHistory stepNumbers k history) ! i) = PosInf
     \<and> val (history_max (createAggregatedMetricHistory stepNumbers k history) ! i) = NegInf
     \<and> timestamp (history_average (createAggregatedMetricHistory stepNumbers k history) ! i) = NaN
     \<and> timestamp (history_min (createAggregatedMetricHistory stepNumbers k history) ! i) = NaN
     \<and> timestamp (history_max (createAggregatedMetricHistory stepNumbers k history) ! i) = NaN"
    using assms(1) none
    by (simp add: history_min_nth history_max_nth history_average_nth average_def
        Math_min_def Math_max_def)
  have example:
    "createAggregatedMetricHistory [Fin 1, Fin 2] (js ''loss'')
       [\<lparr>key = js ''loss'', val = Fin 1, step = Fin 1, timestamp = Fin 100\<rparr>,
        \<lparr>key = js ''loss'', val = Fin 3, step = Fin 1, timestamp = Fin 200\<rparr>]
     = \<lparr>history_min =
          [\<lparr>key = js ''loss'', val = Fin 1, step = Fin 1, timestamp = Fin 150\<rparr>,
           \<lparr>key = js ''loss'', val = PosInf, step = Fin 2, timestamp = NaN\<rparr>],
        history_max =
          [\<lparr>key = js ''loss'', val = Fin 3, step = Fin 1, timestamp = Fin 150\<rparr>,
           \<lparr>key = js ''loss'', val = NegInf, step = Fin 2, timestamp = NaN\<rparr>],
        history_average =
          [\<lparr>key = js ''loss'', val = Fin 2, step = Fin 1, timestamp = Fin 150\<rparr>,
           \<lparr>key = js ''loss'', val = NaN, step = Fin 2, timestamp = NaN\<rparr>]\<rparr>"
    by (simp add: createAggregatedMetricHistory_def Let_def compact_at_historyByStep_of
        average_def Math_min_def Math_max_def floor_eq_iff)
  from general example show ?thesis by simp
qed

theorem aggregated_history_empty_step_witness:
  "(1::nat) < length [Fin 1, Fin 2]
   \<and> step \<lparr>key = js ''loss'', val = Fin 1, step = Fin 1, timestamp = Fin 100\<rparr> \<noteq> [Fin 1, Fin 2] ! 1
   \<and> step \<lparr>key = js ''loss'', val = Fin 3, step = Fin 1, timestamp = Fin 200\<rparr> \<noteq> [Fin 1, Fin 2] ! 1
   \<and> val (history_max (createAggregatedMetricHistory [Fin 1, Fin 2] (js ''loss'')
        [\<lparr>key = js ''loss'', val = Fin 1, step = Fin 1, timestamp = Fin 100\<rparr>,
         \<lparr>key = js ''loss'', val = Fin 3, step = Fin 1, timestamp = Fin 200\<rparr>]) ! 1) = NegInf"
  using aggregated_history_empty_step [of 1 "[Fin 1, Fin 2]"
        "[\<lparr>key = js ''loss'', val = Fin 1, step = Fin 1, timestamp = Fin 100\<rparr>,
          \<lparr>key = js ''loss'', val = Fin 3, step = Fin 1, timestamp = Fin 200\<rparr>]" "js ''loss''"]
  by simp

text \<open>
  Claim C10: an entry whose value is 0 is left out of the min, the max and the average of
  its step, and an entry whose timestamp is 0 is left out of the average timestamp of its
  step (the falsy numbers, 0 and NaN, are compacted away before the aggregation).
\<close>

theorem aggregated_history_skips_zero:
  assumes "i < length stepNumbers"
  shows "val (history_min (createAggregatedMetricHistory stepNumbers k history) ! i) =
           Math_min [val e. e \<leftarrow> history, step e = stepNumbers ! i, val e \<noteq> Fin 0, val e \<noteq> NaN]
       \<and> val (history_max (createAggregatedMetricHistory stepNumbers k history) ! i) =
           Math_max [val e. e \<leftarrow> history, step e = stepNumbers ! i, val e \<noteq> Fin 0, val e \<noteq> NaN]
       \<and> val (history_average (createAggregatedMetricHistory stepNumbers k history) ! i) =
           average [val e. e \<leftarrow> history, step e = stepNumbers ! i, val e \<noteq> Fin 0, val e \<noteq> NaN]
       \<and> (\<forall>series \<in> {history_min, history_max, history_average}.
            timestamp (series (createAggregatedMetricHistory stepNumbers k history) ! i) =
              Math_round (average [timestamp e. e \<leftarrow> history, step e = stepNumbers ! i,
                                     timestamp e \<noteq> Fin 0, timestamp e \<noteq> NaN]))"
proof -
  have sel: "filter truthy (map f (filter (\<lambda>e. step e = s) history)) =
             [f e. e \<leftarrow> history, step e = s, f e \<noteq> Fin 0, f e \<noteq> NaN]"
    for f :: "MetricEntity \<Rightarrow> jsnum" and s
    by (induction history) (simp_all add: truthy_iff)
  show ?thesis
    using assms
    by (simp add: history_min_nth history_max_nth history_average_nth
        compact_at_historyByStep_of sel)
qed

theorem aggregated_history_skips_zero_witness:
  "(0::nat) < length [Fin 1]
   \<and> val (history_min (createAggregatedMetricHistory [Fin 1] (js ''loss'')
        [\<lparr>key = js ''loss'', val = Fin 0, step = Fin 1, timestamp = Fin 100\<rparr>,
         \<lparr>key = js ''loss'', val = Fin 4, step = Fin 1, timestamp = Fin 0\<rparr>]) ! 0) = Fin 4
   \<and> val (history_average (createAggregatedMetricHistory [Fin 1] (js ''loss'')
        [\<lparr>key = js ''loss'', val = Fin 0, step = Fin 1, timestamp = Fin 100\<rparr>,
         \<lparr>key = js ''loss'', val = Fin 4, step = Fin 1, timestamp = Fin 0\<rparr>]) ! 0) = Fin 4
   \<and> timestamp (history_average (createAggregatedMetricHistory [Fin 1] (js ''loss'')
        [\<lparr>key = js ''loss'', val = Fin 0, step = Fin 1, timestamp = Fin 100\<rparr>,
         \<lparr>key = js ''loss'', val = Fin 4, step = Fin 1, timestamp = Fin 0\<rparr>]) ! 0) = Fin 100"
  using aggregated_history_skips_zero [of 0 "[Fin 1]" "js ''loss''"
        "[\<lparr>key = js ''loss'', val = Fin 0, step = Fin 1, timestamp = Fin 100\<rparr>,
          \<lparr>key = js ''loss'', val = Fin 4, step = Fin 1, timestamp = Fin 0\<rparr>]"]
  by (simp add: Math_min_def average_def floor_eq_iff)

section \<open>Properties of the entry point\<close>

text \<open>
  Claim C9: when the mode of the configuration is none of Tag, Param and Dataset,
  \<open>getGroupedRowRenderMetadata\<close> returns null; it throws nothing and, being a function of
  its arguments, has no other effect.
\<close>

theorem unknown_mode_gives_null:
  assumes "mode groupByConfig \<noteq> RunGroupingMode_Tag"
    and "mode groupByConfig \<noteq> RunGroupingMode_Param"
    and "mode groupByConfig \<noteq> RunGroupingMode_Dataset"
  shows "getGroupedRowRenderMetadata toNumber heap groupsExpanded runData groupByConfig = Inr None"
  using assms by (simp add: getGroupedRowRenderMetadata_def)

theorem unknown_mode_gives_null_witness:
  "js ''metric'' \<noteq> RunGroupingMode_Tag \<and> js ''metric'' \<noteq> RunGroupingMode_Param
   \<and> js ''metric'' \<noteq> RunGroupingMode_Dataset
   \<and> getGroupedRowRenderMetadata (\<lambda>s. NaN)
        (\<lambda>r. \<lparr>runInfo = \<lparr>run_uuid = js ''run1''\<rparr>, params = [], metrics = [], tags = [], datasets = []\<rparr>)
        Map.empty [0, 1]
        \<lparr>mode = js ''metric'', aggregateFunction = js ''min'', groupByData = js ''x''\<rparr> = Inr None"
  using unknown_mode_gives_null [of "\<lparr>mode = js ''metric'', aggregateFunction = js ''min'', groupByData = js ''x''\<rparr>"
        "\<lambda>s. NaN"
        "\<lambda>r. \<lparr>runInfo = \<lparr>run_uuid = js ''run1''\<rparr>, params = [], metrics = [], tags = [], datasets = []\<rparr>"
        Map.empty "[0, 1]"]
  by (simp add: RunGroupingMode_Tag_def RunGroupingMode_Param_def RunGroupingMode_Dataset_def js_def)

section \<open>Properties of the codec\<close>

text \<open>
  Claim C1, as stated, fails: with the empty string as \<open>groupByData\<close> the key is
  \<open>tag.min.\<close>, the group \<open>(.+)\<close> finds no code unit, and the key parses to null.
\<close>

theorem parse_create_empty_counterexample: "parseRunsGroupByKey (Some (createRunsGroupByKey (Some RunGroupingMode_Tag) [] RunGroupingAggregateFunction_Min)) = None"
  by (simp add: parseRunsGroupByKey_def createRunsGroupByKey_def RunGroupingMode_Tag_def
      RunGroupingAggregateFunction_Min_def js_def match_groupByKey_def match_here_def
      plus_splits_def literal_dot_def dot_def isLowerLetter_def isLineTerminator_def)

lemma first_some_plus_splits:
  assumes "takeWhile cls s \<noteq> []"
    and "g (takeWhile cls s, dropWhile cls s) = Some y"
  shows "first_some g (plus_splits cls s) = Some y"
proof -
  obtain n where n: "length (takeWhile cls s) = Suc n"
    using assms(1) by (cases "takeWhile cls s") auto
  have "take (Suc n) s = takeWhile cls s" "drop (Suc n) s = dropWhile cls s"
    using n takeWhile_eq_take [of cls s] dropWhile_eq_drop [of cls s] by simp_all
  then show ?thesis
    using assms(2) by (simp add: plus_splits_def n)
qed

lemma not_lower_dot: "\<not> isLowerLetter dot"
  by (simp add: isLowerLetter_def dot_def)

lemma literal_dot_Cons: "literal_dot (dot # rest) continue = continue rest"
  by (simp add: literal_dot_def)

lemma match_here_joined:
  assumes "m \<noteq> []" "\<forall>c \<in> set m. isLowerLetter c"
    and "f \<noteq> []" "\<forall>c \<in> set f. isLowerLetter c"
    and "d \<noteq> []" "\<forall>c \<in> set d. \<not> isLineTerminator c"
  shows "match_here (m @ dot # f @ dot # d) = Some (m, f, d)"
proof -
  have t1: "takeWhile isLowerLetter (m @ dot # f @ dot # d) = m"
    and d1: "dropWhile isLowerLetter (m @ dot # f @ dot # d) = dot # f @ dot # d"
    using assms(2) by (simp_all add: not_lower_dot)
  have t2: "takeWhile isLowerLetter (f @ dot # d) = f"
    and d2: "dropWhile isLowerLetter (f @ dot # d) = dot # d"
    using assms(4) by (simp_all add: not_lower_dot)
  have t3: "takeWhile (\<lambda>c. \<not> isLineTerminator c) d = d"
    and d3: "dropWhile (\<lambda>c. \<not> isLineTerminator c) d = []"
    using assms(6) by simp_all
  have s3: "first_some (\<lambda>(g3, r5). Some (m, f, g3)) (plus_splits (\<lambda>c. \<not> isLineTerminator c) d)
              = Some (m, f, d)"
    by (rule first_some_plus_splits) (simp_all add: t3 d3 assms(5))
  have s2: "first_some (\<lambda>(g2, r3). literal_dot r3 (\<lambda>r4.
               first_some (\<lambda>(g3, r5). Some (m, g2, g3)) (plus_splits (\<lambda>c. \<not> isLineTerminator c) r4)))
             (plus_splits isLowerLetter (f @ dot # d)) = Some (m, f, d)"
    by (rule first_some_plus_splits) (simp_all add: t2 d2 assms(3) literal_dot_Cons s3)
  show ?thesis
    unfolding match_here_def
    by (rule first_some_plus_splits) (simp_all add: t1 d1 assms(1) literal_dot_Cons s2)
qed

lemma match_groupByKey_leftmost:
  "match_here s = Some r \<Longrightarrow> match_groupByKey s = Some r"
  by (simp add: match_groupByKey_def upt_conv_Cons del: upt_Suc)

lemma mode_values_lower:
  "m \<in> set RunGroupingMode_values \<Longrightarrow> m \<noteq> [] \<and> (\<forall>c \<in> set m. isLowerLetter c)"
  by (auto simp add: RunGroupingMode_values_def RunGroupingMode_Param_def RunGroupingMode_Tag_def
      RunGroupingMode_Dataset_def js_def isLowerLetter_def)

lemma function_values_lower:
  "f \<in> set RunGroupingAggregateFunction_values \<Longrightarrow> f \<noteq> [] \<and> (\<forall>c \<in> set f. isLowerLetter c)"
  by (auto simp add: RunGroupingAggregateFunction_values_def RunGroupingAggregateFunction_Min_def
      RunGroupingAggregateFunction_Max_def RunGroupingAggregateFunction_Average_def js_def isLowerLetter_def)

text \<open>
  Claim C1, amended: for every mode and aggregate function of the enums and every
  \<open>groupByData\<close> that is not empty and holds no line terminator (dots are allowed),
  parsing the created key gives back the mode, the aggregate function and \<open>groupByData\<close>.
\<close>

theorem parse_create_roundtrip:
  assumes "m \<in> set RunGroupingMode_values"
    and "f \<in> set RunGroupingAggregateFunction_values"
    and "d \<noteq> []"
    and "\<forall>c \<in> set d. \<not> isLineTerminator c"
  shows "parseRunsGroupByKey (Some (createRunsGroupByKey (Some m) d f))
           = Some \<lparr>mode = m, aggregateFunction = f, groupByData = d\<rparr>"
proof -
  have m: "m \<noteq> []" "\<forall>c \<in> set m. isLowerLetter c"
    using mode_values_lower [OF assms(1)] by simp_all
  have f: "f \<noteq> []" "\<forall>c \<in> set f. isLowerLetter c"
    using function_values_lower [OF assms(2)] by simp_all
  have k: "createRunsGroupByKey (Some m) d f = m @ dot # f @ dot # d"
    using m(1) by (simp add: createRunsGroupByKey_def js_def dot_def)
  have "match_groupByKey (m @ dot # f @ dot # d) = Some (m, f, d)"
    by (rule match_groupByKey_leftmost) (rule match_here_joined [OF m f assms(3,4)])
  then show ?thesis
    using assms(1,2) m(1) by (simp add: k parseRunsGroupByKey_def)
qed

theorem parse_create_roundtrip_witness:
  "parseRunsGroupByKey
     (Some (createRunsGroupByKey (Some (js ''tag'')) (js ''metrics.a.b'') (js ''average'')))
   = Some \<lparr>mode = js ''tag'', aggregateFunction = js ''average'', groupByData = js ''metrics.a.b''\<rparr>"
  using parse_create_roundtrip [of "js ''tag''" "js ''average''" "js ''metrics.a.b''"]
  by (simp add: RunGroupingMode_values_def RunGroupingMode_Tag_def
      RunGroupingAggregateFunction_values_def RunGroupingAggregateFunction_Average_def
      js_def isLineTerminator_def)

section \<open>Properties of \<open>aggregateValues\<close>\<close>

lemma foldl_nested: "foldl (\<lambda>acc l. foldl f acc l) a xss = foldl f a (concat xss)"
  by (induction xss arbitrary: a) simp_all

lemma foldE_append:
  "foldE f s (xs @ ys) = (case foldE f s xs of Inl e \<Rightarrow> Inl e | Inr s' \<Rightarrow> foldE f s' ys)"
  by (induction xs arbitrary: s) (simp_all split: sum.split)

lemma foldE_nested: "foldE (\<lambda>acc l. foldE f acc l) a xss = foldE f a (concat xss)"
  by (induction xss arbitrary: a) (simp_all add: foldE_append split: sum.split)

lemma firstOccurrences_snoc:
  "firstOccurrences (xs @ [x]) = (if x \<in> set xs then firstOccurrences xs else firstOccurrences xs @ [x])"
  by (simp add: firstOccurrences_def)

lemma firstOccurrences_Nil [simp]: "firstOccurrences [] = []"
  by (simp add: firstOccurrences_def)

lemma set_firstOccurrences [simp]: "set (firstOccurrences xs) = set xs"
  by (simp add: firstOccurrences_def)

lemma distinct_firstOccurrences [simp]: "distinct (firstOccurrences xs)"
  by (simp add: firstOccurrences_def)

lemma map_of_None_iff: "map_of al k = None \<longleftrightarrow> k \<notin> fst ` set al"
  by (simp add: map_of_eq_None_iff)

lemma filter_key_empty:
  "key x \<notin> key ` set xs \<Longrightarrow> filter (\<lambda>e. key e = key x) xs = []"
  by (induction xs) auto

subsection \<open>The loop of the Average branch\<close>

lemma average_loop_Inr:
  "foldE (average_step tn) [] xs = Inr vm \<Longrightarrow>
     map fst vm = firstOccurrences (map key xs)
     \<and> (\<forall>k. map_of vm k = (if k \<in> key ` set xs then Some (map (\<lambda>e. Number tn (val e)) (filter (\<lambda>e. key e = k) xs)) else None))
     \<and> (\<forall>e \<in> set xs. key e \<notin> set objectPrototypeKeys)"
proof (induction xs arbitrary: vm rule: rev_induct)
  case Nil
  then show ?case by auto
next
  case (snoc x xs)
  from snoc.prems obtain vm0 where vm0: "foldE (average_step tn) [] xs = Inr vm0"
    and step: "average_step tn vm0 x = Inr vm"
    by (auto simp add: foldE_append split: sum.splits)
  note IH = snoc.IH [OF vm0]
  show ?case
  proof (cases "map_of vm0 (key x)")
    case None
    then have new: "key x \<notin> key ` set xs" using IH by (auto split: if_splits)
    from None have nd: "key x \<notin> fst ` set vm0" by (simp add: map_of_None_iff)
    from step None have np: "key x \<notin> set objectPrototypeKeys"
      and vm: "vm = AList.update (key x) [Number tn (val x)] vm0"
      by (auto simp add: average_step_def Let_def split: if_splits)
    have "map fst vm = firstOccurrences (map key (xs @ [x]))"
      using IH nd new by (simp add: vm update_keys firstOccurrences_snoc)
    moreover have "filter (\<lambda>e. key e = key x) xs = []"
      using new by (rule filter_key_empty)
    then have "\<forall>k. map_of vm k = (if k \<in> key ` set (xs @ [x])
         then Some (map (\<lambda>e. Number tn (val e)) (filter (\<lambda>e. key e = k) (xs @ [x]))) else None)"
      using IH by (auto simp add: vm update_conv')
    ultimately show ?thesis using IH np by simp
  next
    case (Some vs)
    then have old: "key x \<in> key ` set xs" using IH by (auto split: if_splits)
    from Some have od: "key x \<in> fst ` set vm0" by (metis map_of_None_iff option.distinct(1))
    from step Some have vm: "vm = AList.update (key x) (vs @ [Number tn (val x)]) vm0"
      by (auto simp add: average_step_def Let_def)
    have np: "key x \<notin> set objectPrototypeKeys" using IH old by auto
    have "map fst vm = firstOccurrences (map key (xs @ [x]))"
      using IH od old by (simp add: vm update_keys firstOccurrences_snoc)
    moreover have "\<forall>k. map_of vm k = (if k \<in> key ` set (xs @ [x])
         then Some (map (\<lambda>e. Number tn (val e)) (filter (\<lambda>e. key e = k) (xs @ [x]))) else None)"
      using IH Some old by (auto simp add: vm update_conv')
    ultimately show ?thesis using IH np by simp
  qed
qed

lemma average_loop_total:
  "\<forall>e \<in> set xs. key e \<notin> set objectPrototypeKeys \<Longrightarrow> \<exists>vm. foldE (average_step tn) acc xs = Inr vm"
proof (induction xs arbitrary: acc)
  case Nil
  then show ?case by simp
next
  case (Cons x xs)
  then have "\<exists>acc'. average_step tn acc x = Inr acc'"
    by (cases "map_of acc (key x)") (simp_all add: average_step_def Let_def)
  then show ?case using Cons by auto
qed


subsection \<open>\<open>Math.min\<close> and \<open>Math.max\<close>\<close>

lemma isNaN_iff: "isNaN v \<longleftrightarrow> v = NaN"
  by (cases v) simp_all

lemma js_less_trans: "js_less a b \<Longrightarrow> js_less b c \<Longrightarrow> js_less a c"
  by (cases a; cases b; cases c) simp_all

lemma js_less_le_trans: "js_less a b \<Longrightarrow> \<not> js_less c b \<Longrightarrow> c \<noteq> NaN \<Longrightarrow> js_less a c"
  by (cases a; cases b; cases c) simp_all

lemma js_le_less_trans: "\<not> js_less b a \<Longrightarrow> js_less b c \<Longrightarrow> a \<noteq> NaN \<Longrightarrow> js_less a c"
  by (cases a; cases b; cases c) simp_all

lemma js_less_irrefl: "\<not> js_less a a"
  by (cases a) simp_all

lemma foldl_lowest:
  "\<forall>v \<in> set vs. v \<noteq> NaN \<Longrightarrow> a \<noteq> NaN \<Longrightarrow>
   foldl (\<lambda>lowest n. if js_less n lowest then n else lowest) a vs \<noteq> NaN
   \<and> (foldl (\<lambda>lowest n. if js_less n lowest then n else lowest) a vs = a
        \<or> foldl (\<lambda>lowest n. if js_less n lowest then n else lowest) a vs \<in> set vs)
   \<and> \<not> js_less a (foldl (\<lambda>lowest n. if js_less n lowest then n else lowest) a vs)
   \<and> (\<forall>v \<in> set vs. \<not> js_less v (foldl (\<lambda>lowest n. if js_less n lowest then n else lowest) a vs))"
proof (induction vs arbitrary: a)
  case Nil
  then show ?case by (simp add: js_less_irrefl)
next
  case (Cons v vs)
  let ?a' = "if js_less v a then v else a"
  let ?r = "foldl (\<lambda>lowest n. if js_less n lowest then n else lowest) ?a' vs"
  have a': "?a' \<noteq> NaN" using Cons.prems by simp
  have IH: "?r \<noteq> NaN" "?r = ?a' \<or> ?r \<in> set vs" "\<not> js_less ?a' ?r"
    "\<forall>v \<in> set vs. \<not> js_less v ?r"
    using Cons.IH [of ?a'] Cons.prems a' by simp_all
  have "\<not> js_less a ?r \<and> \<not> js_less v ?r"
  proof (cases "js_less v a")
    case True
    then show ?thesis using IH(3) js_less_trans [of v a ?r] by auto
  next
    case False
    then show ?thesis using IH(3) js_less_le_trans [of v ?r a] Cons.prems(2) by auto
  qed
  then show ?case using IH by auto
qed

lemma foldl_highest:
  "\<forall>v \<in> set vs. v \<noteq> NaN \<Longrightarrow> a \<noteq> NaN \<Longrightarrow>
   foldl (\<lambda>highest n. if js_less highest n then n else highest) a vs \<noteq> NaN
   \<and> (foldl (\<lambda>highest n. if js_less highest n then n else highest) a vs = a
        \<or> foldl (\<lambda>highest n. if js_less highest n then n else highest) a vs \<in> set vs)
   \<and> \<not> js_less (foldl (\<lambda>highest n. if js_less highest n then n else highest) a vs) a
   \<and> (\<forall>v \<in> set vs. \<not> js_less (foldl (\<lambda>highest n. if js_less highest n then n else highest) a vs) v)"
proof (induction vs arbitrary: a)
  case Nil
  then show ?case by (simp add: js_less_irrefl)
next
  case (Cons v vs)
  let ?a' = "if js_less a v then v else a"
  let ?r = "foldl (\<lambda>highest n. if js_less highest n then n else highest) ?a' vs"
  have a': "?a' \<noteq> NaN" using Cons.prems by simp
  have IH: "?r \<noteq> NaN" "?r = ?a' \<or> ?r \<in> set vs" "\<not> js_less ?r ?a'"
    "\<forall>v \<in> set vs. \<not> js_less ?r v"
    using Cons.IH [of ?a'] Cons.prems a' by simp_all
  have "\<not> js_less ?r a \<and> \<not> js_less ?r v"
  proof (cases "js_less a v")
    case True
    then show ?thesis using IH(3) js_less_trans [of ?r a v] by auto
  next
    case False
    then have ra: "\<not> js_less ?r a" using IH(3) by simp
    have "\<not> js_less ?r v"
    proof
      assume rv: "js_less ?r v"
      from ra rv Cons.prems(2) have "js_less a v" by (rule js_le_less_trans)
      then show False using False by simp
    qed
    then show ?thesis using ra by simp
  qed
  then show ?case using IH by auto
qed

lemma Math_min_is_minimum:
  assumes "Math_min vs \<noteq> NaN" "vs \<noteq> []"
  shows "Math_min vs \<in> set vs \<and> (\<forall>v \<in> set vs. v \<noteq> NaN \<and> \<not> js_less v (Math_min vs))"
proof -
  have nn: "\<forall>v \<in> set vs. v \<noteq> NaN"
    using assms(1) by (auto simp add: Math_min_def list_ex_iff isNaN_iff split: if_splits)
  then have eq: "Math_min vs = foldl (\<lambda>lowest n. if js_less n lowest then n else lowest) PosInf vs"
    by (auto simp add: Math_min_def list_ex_iff isNaN_iff)
  note f = foldl_lowest [OF nn, of PosInf, folded eq]
  have "Math_min vs \<in> set vs"
  proof (cases "Math_min vs = PosInf")
    case True
    obtain v where v: "v \<in> set vs" using assms(2) by (cases vs) auto
    then have "\<not> js_less v PosInf" "v \<noteq> NaN" using f True nn by auto
    then have "v = PosInf" by (cases v) simp_all
    then show ?thesis using v True by simp
  next
    case False
    then show ?thesis using f by auto
  qed
  then show ?thesis using f nn by auto
qed

lemma Math_max_is_maximum:
  assumes "Math_max vs \<noteq> NaN" "vs \<noteq> []"
  shows "Math_max vs \<in> set vs \<and> (\<forall>v \<in> set vs. v \<noteq> NaN \<and> \<not> js_less (Math_max vs) v)"
proof -
  have nn: "\<forall>v \<in> set vs. v \<noteq> NaN"
    using assms(1) by (auto simp add: Math_max_def list_ex_iff isNaN_iff split: if_splits)
  then have eq: "Math_max vs = foldl (\<lambda>highest n. if js_less highest n then n else highest) NegInf vs"
    by (auto simp add: Math_max_def list_ex_iff isNaN_iff)
  note f = foldl_highest [OF nn, of NegInf, folded eq]
  have "Math_max vs \<in> set vs"
  proof (cases "Math_max vs = NegInf")
    case True
    obtain v where v: "v \<in> set vs" using assms(2) by (cases vs) auto
    then have "\<not> js_less NegInf v" "v \<noteq> NaN" using f True nn by auto
    then have "v = NegInf" by (cases v) simp_all
    then show ?thesis using v True by simp
  next
    case False
    then show ?thesis using f by auto
  qed
  then show ?thesis using f nn by auto
qed

text \<open>The three facts the loop needs of the aggregate function.\<close>

lemma Math_min_single: "Math_min [n] = n"
  by (cases n) (simp_all add: Math_min_def)

lemma Math_max_single: "Math_max [n] = n"
  by (cases n) (simp_all add: Math_max_def)

lemma Math_min_NaN: "Math_min [NaN, n] = NaN"
  by (simp add: Math_min_def)

lemma Math_max_NaN: "Math_max [NaN, n] = NaN"
  by (simp add: Math_max_def)

lemma Math_min_snoc: "Math_min [Math_min vs, n] = Math_min (vs @ [n])"
proof (cases "list_ex isNaN vs \<or> isNaN n")
  case True
  then show ?thesis by (auto simp add: Math_min_def)
next
  case False
  then have nn: "\<forall>v \<in> set vs. v \<noteq> NaN" by (auto simp add: list_ex_iff isNaN_iff)
  let ?r = "foldl (\<lambda>lowest n. if js_less n lowest then n else lowest) PosInf vs"
  have r: "?r \<noteq> NaN" using foldl_lowest [OF nn, of PosInf] by simp
  then have "js_less ?r PosInf \<or> ?r = PosInf" by (cases ?r) simp_all
  then show ?thesis using False r by (auto simp add: Math_min_def isNaN_iff)
qed

lemma Math_max_snoc: "Math_max [Math_max vs, n] = Math_max (vs @ [n])"
proof (cases "list_ex isNaN vs \<or> isNaN n")
  case True
  then show ?thesis by (auto simp add: Math_max_def)
next
  case False
  then have nn: "\<forall>v \<in> set vs. v \<noteq> NaN" by (auto simp add: list_ex_iff isNaN_iff)
  let ?r = "foldl (\<lambda>highest n. if js_less highest n then n else highest) NegInf vs"
  have r: "?r \<noteq> NaN" using foldl_highest [OF nn, of NegInf] by simp
  then have "js_less NegInf ?r \<or> ?r = NegInf" by (cases ?r) simp_all
  then show ?thesis using False r by (auto simp add: Math_max_def isNaN_iff)
qed

subsection \<open>The loop of the Min and Max branch\<close>

lemma minmax_step_form:
  "\<exists>w. minmax_step M tn acc x = assign acc (key x) \<lparr>key = key x, val = w\<rparr>
       \<and> (case map_of (props acc) (key x) of
            Some own \<Rightarrow> w = M [val own, Number tn (val x)]
          | None \<Rightarrow> key x = js ''__proto__'' \<or> w = Number tn (val x) \<or> w = M [NaN, Number tn (val x)])"
  by (cases "map_of (props acc) (key x)")
     (auto simp add: minmax_step_def Let_def inherited_def split: option.split prod.split)

lemma minmax_loop:
  assumes M: "\<And>n. M [NaN, n] = NaN" "\<And>n. M [n] = n" "\<And>vs n. M [M vs, n] = M (vs @ [n])"
  shows "map fst (props (foldl (minmax_step M tn) \<lparr>props = [], proto = None\<rparr> xs))
           = filter (\<lambda>k. k \<noteq> js ''__proto__'') (firstOccurrences (map key xs))
       \<and> (\<forall>k e. map_of (props (foldl (minmax_step M tn) \<lparr>props = [], proto = None\<rparr> xs)) k = Some e \<longrightarrow>
             key e = k
             \<and> (val e = NaN
                \<or> val e = M (map (\<lambda>e. Number tn (val e)) (filter (\<lambda>e. key e = k) xs))))"
proof (induction xs rule: rev_induct)
  case Nil
  show ?case by simp
next
  case (snoc x xs)
  let ?acc = "foldl (minmax_step M tn) \<lparr>props = [], proto = None\<rparr> xs"
  let ?n = "Number tn (val x)"
  let ?vals = "\<lambda>k ys. map (\<lambda>e. Number tn (val e)) (filter (\<lambda>e. key e = k) ys)"
  from snoc.IH have keys: "map fst (props ?acc) = filter (\<lambda>k. k \<noteq> js ''__proto__'') (firstOccurrences (map key xs))"
    and vals: "\<And>k e. map_of (props ?acc) k = Some e \<Longrightarrow>
                 key e = k \<and> (val e = NaN \<or> val e = M (?vals k xs))"
    by auto
  obtain w where step: "minmax_step M tn ?acc x = assign ?acc (key x) \<lparr>key = key x, val = w\<rparr>"
    and w: "case map_of (props ?acc) (key x) of
              Some own \<Rightarrow> w = M [val own, ?n]
            | None \<Rightarrow> key x = js ''__proto__'' \<or> w = ?n \<or> w = M [NaN, ?n]"
    using minmax_step_form [of M tn ?acc x] by blast
  have "fst ` set (props ?acc) = set (map fst (props ?acc))" by simp
  also have "\<dots> = set (filter (\<lambda>k. k \<noteq> js ''__proto__'') (firstOccurrences (map key xs)))"
    by (simp only: keys)
  also have "\<dots> = set (map key xs) - {js ''__proto__''}" by auto
  finally have dom: "fst ` set (props ?acc) = set (map key xs) - {js ''__proto__''}" .
  show ?case
  proof (cases "key x = js ''__proto__''")
    case True
    then have same: "props (foldl (minmax_step M tn) \<lparr>props = [], proto = None\<rparr> (xs @ [x])) = props ?acc"
      by (simp add: step assign_def)
    have g1: "map fst (props ?acc) = filter (\<lambda>k. k \<noteq> js ''__proto__'') (firstOccurrences (map key (xs @ [x])))"
      using keys True by (simp add: firstOccurrences_snoc)
    have g2: "key e = k \<and> (val e = NaN \<or> val e = M (?vals k (xs @ [x])))"
      if a: "map_of (props ?acc) k = Some e" for k e
    proof -
      from a have "k \<in> fst ` set (props ?acc)" by (metis map_of_None_iff option.distinct(1))
      then have "k \<noteq> key x" using dom True by auto
      then have "?vals k (xs @ [x]) = ?vals k xs" by auto
      then show ?thesis using vals [OF a] by simp
    qed
    show ?thesis unfolding same using g1 g2 by blast
  next
    case False
    then have new: "props (foldl (minmax_step M tn) \<lparr>props = [], proto = None\<rparr> (xs @ [x]))
                     = AList.update (key x) \<lparr>key = key x, val = w\<rparr> (props ?acc)"
      by (simp add: step assign_def)
    have in_dom: "key x \<in> fst ` set (props ?acc) \<longleftrightarrow> key x \<in> set (map key xs)"
      using dom False by auto
    have k1: "map fst (AList.update (key x) \<lparr>key = key x, val = w\<rparr> (props ?acc))
                = filter (\<lambda>k. k \<noteq> js ''__proto__'') (firstOccurrences (map key (xs @ [x])))"
      using keys in_dom False by (auto simp add: update_keys firstOccurrences_snoc)
    have wv: "w = NaN \<or> w = M (?vals (key x) (xs @ [x]))"
    proof (cases "map_of (props ?acc) (key x)")
      case None
      then have "key x \<notin> key ` set xs" using in_dom by (simp add: map_of_None_iff)
      then have "?vals (key x) xs = []" by (simp add: filter_key_empty)
      then show ?thesis using w None False by (auto simp add: M)
    next
      case (Some own)
      then show ?thesis using w vals [OF Some] by (auto simp add: M)
    qed
    have "\<And>k e. map_of (AList.update (key x) \<lparr>key = key x, val = w\<rparr> (props ?acc)) k = Some e \<Longrightarrow>
            key e = k \<and> (val e = NaN \<or> val e = M (?vals k (xs @ [x])))"
    proof -
      fix k e assume a: "map_of (AList.update (key x) \<lparr>key = key x, val = w\<rparr> (props ?acc)) k = Some e"
      show "key e = k \<and> (val e = NaN \<or> val e = M (?vals k (xs @ [x])))"
      proof (cases "k = key x")
        case True
        then have "e = \<lparr>key = key x, val = w\<rparr>" using a by (simp add: update_conv')
        then show ?thesis using wv True by auto
      next
        case False
        then have "map_of (props ?acc) k = Some e" using a by (simp add: update_conv')
        then show ?thesis using vals False by auto
      qed
    qed
    then show ?thesis using k1 by (simp only: new) blast
  qed
qed

subsection \<open>The order of enumeration\<close>

lemma set_ownEntries [simp]: "set (ownEntries ps) = set ps"
  by (auto simp add: ownEntries_def)

lemma map_insort_key:
  "map g (insort_key (\<lambda>p. f (g p)) x xs) = insort_key f (g x) (map g xs)"
  by (induction xs) simp_all

lemma map_sort_key: "map g (sort_key (\<lambda>p. f (g p)) xs) = sort_key f (map g xs)"
  by (induction xs) (simp_all add: map_insort_key)

lemma map_fst_ownEntries: "map fst (ownEntries ps) = propertyOrder (map fst ps)"
  by (simp add: ownEntries_def propertyOrder_def map_sort_key filter_map comp_def)

lemma filter_ownEntries: "filter P (ownEntries ps) = ownEntries (filter P ps)"
proof -
  have "filter P (filter Q ps) = filter Q (filter P ps)" for Q
    by (induction ps) simp_all
  then show ?thesis by (simp add: ownEntries_def filter_sort)
qed

lemma filter_propertyOrder: "filter P (propertyOrder ks) = propertyOrder (filter P ks)"
proof -
  have "filter P (filter Q ks) = filter Q (filter P ks)" for Q
    by (induction ks) simp_all
  then show ?thesis by (simp add: propertyOrder_def filter_sort)
qed

lemma map_fst_filter_distinct:
  "distinct (map fst es) \<Longrightarrow>
   map fst (filter Q es) = filter (\<lambda>k. k \<in> fst ` set (filter Q es)) (map fst es)"
proof (induction es)
  case Nil
  show ?case by simp
next
  case (Cons p es)
  then have d: "fst p \<notin> fst ` set es" and IH: "map fst (filter Q es) = filter (\<lambda>k. k \<in> fst ` set (filter Q es)) (map fst es)"
    by simp_all
  have ne: "fst x \<noteq> fst p" if "x \<in> set es" for x
    using d that by (metis imageI)
  have "filter (\<lambda>k. k \<in> fst ` set (filter Q (p # es))) (map fst es)
          = filter (\<lambda>k. k \<in> fst ` set (filter Q es)) (map fst es)"
  proof (rule filter_cong [OF refl])
    fix k assume "k \<in> set (map fst es)"
    then obtain x where "x \<in> set es" "k = fst x" by auto
    then have "k \<noteq> fst p" using ne by simp
    then show "(k \<in> fst ` set (filter Q (p # es))) = (k \<in> fst ` set (filter Q es))"
      by auto
  qed
  moreover have "fst p \<notin> fst ` set (filter Q es)"
  proof
    assume "fst p \<in> fst ` set (filter Q es)"
    then obtain x where "x \<in> set es" "fst x = fst p" by auto
    then show False using ne by blast
  qed
  ultimately show ?case using IH by (cases "Q p") (simp_all del: set_filter filter_set)
qed

text \<open>The keys of a filtered enumeration.\<close>

lemma enumerated_keys:
  assumes d: "distinct (map fst ps)"
    and g: "\<And>p. p \<in> set ps \<Longrightarrow> key (g p) = fst p"
    and out: "out = filter R (map g (ownEntries ps))"
  shows "map key out = filter (\<lambda>k. k \<in> key ` set out) (propertyOrder (map fst ps))"
proof -
  let ?Q = "\<lambda>p. R (g p)"
  have a: "map key (filter R (map g es)) = map fst (filter ?Q es)" if "set es \<subseteq> set ps" for es
    using that by (induction es) (simp_all add: g)
  have k: "map key out = map fst (filter ?Q (ownEntries ps))"
    using a [of "ownEntries ps"] by (simp add: out)
  have s: "key ` set out = fst ` set (filter ?Q ps)"
  proof -
    have "set (map key out) = set (map fst (filter ?Q (ownEntries ps)))" by (simp only: k)
    then show ?thesis by (simp add: filter_ownEntries)
  qed
  have "map key out = propertyOrder (map fst (filter ?Q ps))"
    by (simp add: k filter_ownEntries map_fst_ownEntries)
  also have "\<dots> = propertyOrder (filter (\<lambda>k. k \<in> fst ` set (filter ?Q ps)) (map fst ps))"
    using map_fst_filter_distinct [OF d, of ?Q] by simp
  also have "\<dots> = filter (\<lambda>k. k \<in> key ` set out) (propertyOrder (map fst ps))"
    by (simp only: s filter_propertyOrder)
  finally show ?thesis .
qed

subsection \<open>The branches of \<open>aggregateValues\<close>\<close>

lemma Min_neq_Max: "RunGroupingAggregateFunction_Min \<noteq> RunGroupingAggregateFunction_Max"
  by (simp add: RunGroupingAggregateFunction_Min_def RunGroupingAggregateFunction_Max_def js_def)

lemma Average_neq: "RunGroupingAggregateFunction_Average \<noteq> RunGroupingAggregateFunction_Min"
  "RunGroupingAggregateFunction_Average \<noteq> RunGroupingAggregateFunction_Max"
  by (simp_all add: RunGroupingAggregateFunction_Min_def RunGroupingAggregateFunction_Max_def
      RunGroupingAggregateFunction_Average_def js_def)

lemma aggregateValues_Min:
  "aggregateValues tn vss RunGroupingAggregateFunction_Min =
     Inr (filter (\<lambda>e. \<not> isNaN (val e))
            (map snd (ownEntries (props (foldl (minmax_step Math_min tn) \<lparr>props = [], proto = None\<rparr> (concat vss))))))"
  by (simp add: aggregateValues_def Let_def foldl_nested)

lemma aggregateValues_Max:
  "aggregateValues tn vss RunGroupingAggregateFunction_Max =
     Inr (filter (\<lambda>e. \<not> isNaN (val e))
            (map snd (ownEntries (props (foldl (minmax_step Math_max tn) \<lparr>props = [], proto = None\<rparr> (concat vss))))))"
  using Min_neq_Max by (simp add: aggregateValues_def Let_def foldl_nested)

lemma aggregateValues_Average:
  "aggregateValues tn vss RunGroupingAggregateFunction_Average =
     (case foldE (average_step tn) [] (concat vss) of
        Inl e \<Rightarrow> Inl e
      | Inr valuesMap \<Rightarrow>
          Inr (filter (\<lambda>e. \<not> isNaN (val e))
                 (map (\<lambda>(k, values).
                         \<lparr>key = k, val = js_div_length (foldl js_add (Fin 0) values) (length values)\<rparr>)
                    (ownEntries valuesMap))))"
  using Average_neq by (simp add: aggregateValues_def foldE_nested)

lemma aggregateValues_unsupported:
  "f \<noteq> RunGroupingAggregateFunction_Min \<Longrightarrow> f \<noteq> RunGroupingAggregateFunction_Max \<Longrightarrow>
   f \<noteq> RunGroupingAggregateFunction_Average \<Longrightarrow>
   aggregateValues tn vss f = Inl (Error (js ''Unsupported aggregate function: '' @ f))"
  by (simp add: aggregateValues_def)


lemma minmax_output:
  assumes M: "\<And>n. M [NaN, n] = NaN" "\<And>n. M [n] = n" "\<And>vs n. M [M vs, n] = M (vs @ [n])"
    and e: "e \<in> set (filter (\<lambda>e. \<not> isNaN (val e))
              (map snd (ownEntries (props (foldl (minmax_step M tn) \<lparr>props = [], proto = None\<rparr> (concat vss))))))"
  shows "val e \<noteq> NaN \<and> sameKeyValues tn vss (key e) \<noteq> [] \<and> val e = M (sameKeyValues tn vss (key e))"
proof -
  let ?ps = "props (foldl (minmax_step M tn) \<lparr>props = [], proto = None\<rparr> (concat vss))"
  note L = minmax_loop [of M tn "concat vss", OF M]
  from L have keys: "map fst ?ps = filter (\<lambda>k. k \<noteq> js ''__proto__'') (firstOccurrences (map key (concat vss)))"
    by blast
  then have d: "distinct (map fst ?ps)" by simp
  from e obtain k where ke: "(k, e) \<in> set ?ps" and nn: "val e \<noteq> NaN"
    by (auto simp add: isNaN_iff)
  from ke d have m: "map_of ?ps k = Some e" by simp
  with L have k: "key e = k" and v: "val e = NaN \<or> val e = M (sameKeyValues tn vss k)"
    by (auto simp add: sameKeyValues_def)
  have "k \<in> set (map fst ?ps)" using ke by force
  then have "k \<in> set (map key (concat vss))" by (simp only: keys) simp
  then obtain x where "x \<in> set (concat vss)" "key x = k" by auto
  then have "filter (\<lambda>e. key e = k) (concat vss) \<noteq> []"
    by (simp only: filter_empty_conv) blast
  then have "sameKeyValues tn vss k \<noteq> []" by (simp add: sameKeyValues_def)
  then show ?thesis using nn k v by simp
qed

lemma average_output:
  assumes vm: "foldE (average_step tn) [] (concat vss) = Inr vm"
    and e: "e \<in> set (filter (\<lambda>e. \<not> isNaN (val e))
              (map (\<lambda>(k, values). \<lparr>key = k, val = js_div_length (foldl js_add (Fin 0) values) (length values)\<rparr>)
                 (ownEntries vm)))"
  shows "val e \<noteq> NaN
       \<and> val e = js_div_length (foldl js_add (Fin 0) (sameKeyValues tn vss (key e)))
                   (length (sameKeyValues tn vss (key e)))"
proof -
  note L = average_loop_Inr [OF vm]
  from e obtain k vs where kv: "(k, vs) \<in> set vm"
    and ee: "e = \<lparr>key = k, val = js_div_length (foldl js_add (Fin 0) vs) (length vs)\<rparr>"
    and nn: "val e \<noteq> NaN"
    by (auto simp add: isNaN_iff)
  from L have "distinct (map fst vm)" by simp
  with kv have "map_of vm k = Some vs" by simp
  with L have "vs = sameKeyValues tn vss k"
    by (auto simp add: sameKeyValues_def split: if_splits)
  then show ?thesis using nn ee by simp
qed

subsection \<open>Keys that name no inherited property\<close>

lemma minmax_step_plain:
  assumes "proto acc = None" "key x \<noteq> js ''__proto__''"
  shows "minmax_step M tn acc x =
           acc\<lparr>props := AList.update (key x)
                  \<lparr>key = key x,
                   val = (case map_of (props acc) (key x) of
                            Some own \<Rightarrow> M [val own, Number tn (val x)]
                          | None \<Rightarrow> if key x \<in> set objectPrototypeKeys then M [NaN, Number tn (val x)]
                                    else Number tn (val x))\<rparr>
                  (props acc)\<rparr>"
  using assms
  by (cases "map_of (props acc) (key x)")
     (simp_all add: minmax_step_def Let_def inherited_def assign_def)

lemma minmax_loop_plain:
  assumes M: "\<And>n. M [NaN, n] = NaN" "\<And>n. M [n] = n" "\<And>vs n. M [M vs, n] = M (vs @ [n])"
    and np: "js ''__proto__'' \<notin> key ` set xs"
  shows "proto (foldl (minmax_step M tn) \<lparr>props = [], proto = None\<rparr> xs) = None
       \<and> (\<forall>k \<in> key ` set xs. k \<notin> set objectPrototypeKeys \<longrightarrow>
             map_of (props (foldl (minmax_step M tn) \<lparr>props = [], proto = None\<rparr> xs)) k
               = Some \<lparr>key = k, val = M (map (\<lambda>e. Number tn (val e)) (filter (\<lambda>e. key e = k) xs))\<rparr>)"
  using np
proof (induction xs rule: rev_induct)
  case Nil
  show ?case by simp
next
  case (snoc x xs)
  let ?acc = "foldl (minmax_step M tn) \<lparr>props = [], proto = None\<rparr> xs"
  let ?n = "Number tn (val x)"
  let ?vals = "\<lambda>k ys. map (\<lambda>e. Number tn (val e)) (filter (\<lambda>e. key e = k) ys)"
  from snoc.prems have npx: "js ''__proto__'' \<notin> key ` set xs" and kx: "key x \<noteq> js ''__proto__''"
    by auto
  from snoc.IH [OF npx] have p: "proto ?acc = None"
    and IH: "\<And>k. k \<in> key ` set xs \<Longrightarrow> k \<notin> set objectPrototypeKeys \<Longrightarrow>
               map_of (props ?acc) k = Some \<lparr>key = k, val = M (?vals k xs)\<rparr>"
    by blast+
  note L = minmax_loop [of M tn xs, OF M]
  have "fst ` set (props ?acc) = set (map fst (props ?acc))" by simp
  also have "\<dots> = set (filter (\<lambda>k. k \<noteq> js ''__proto__'') (firstOccurrences (map key xs)))"
    using L by simp
  also have "\<dots> = key ` set xs" using npx by auto (metis imageI)
  finally have dom: "fst ` set (props ?acc) = key ` set xs" .
  note step = minmax_step_plain [OF p kx, of M tn]
  have p': "proto (foldl (minmax_step M tn) \<lparr>props = [], proto = None\<rparr> (xs @ [x])) = None"
    by (simp add: step p)
  have "map_of (props (foldl (minmax_step M tn) \<lparr>props = [], proto = None\<rparr> (xs @ [x]))) k
          = Some \<lparr>key = k, val = M (?vals k (xs @ [x]))\<rparr>"
    if k: "k \<in> key ` set (xs @ [x])" and kp: "k \<notin> set objectPrototypeKeys" for k
  proof (cases "k = key x")
    case False
    then have "k \<in> key ` set xs" using k by auto
    then show ?thesis using IH [OF _ kp] False by (simp add: step update_conv')
  next
    case True
    show ?thesis
    proof (cases "map_of (props ?acc) (key x)")
      case None
      then have "key x \<notin> key ` set xs" using dom by (simp add: map_of_None_iff)
      then have "?vals (key x) xs = []" by (simp add: filter_key_empty)
      then show ?thesis using None True kp by (simp add: step update_conv' M)
    next
      case (Some own)
      then have "key x \<in> key ` set xs" using dom by (metis map_of_None_iff option.distinct(1))
      from IH [OF this] kp True Some have "val own = M (?vals (key x) xs)" by simp
      then show ?thesis using Some True by (simp add: step update_conv' M)
    qed
  qed
  then show ?case using p' by blast
qed

lemma aggregateValues_complete:
  assumes out: "aggregateValues tn vss f = Inr out"
    and k: "k \<in> key ` set (concat vss)"
    and kp: "k \<notin> set objectPrototypeKeys"
    and np: "js ''__proto__'' \<notin> key ` set (concat vss)"
  shows "(f = RunGroupingAggregateFunction_Min \<longrightarrow> \<not> isNaN (Math_min (sameKeyValues tn vss k)) \<longrightarrow>
            \<lparr>key = k, val = Math_min (sameKeyValues tn vss k)\<rparr> \<in> set out)
       \<and> (f = RunGroupingAggregateFunction_Max \<longrightarrow> \<not> isNaN (Math_max (sameKeyValues tn vss k)) \<longrightarrow>
            \<lparr>key = k, val = Math_max (sameKeyValues tn vss k)\<rparr> \<in> set out)
       \<and> (f = RunGroupingAggregateFunction_Average \<longrightarrow>
            \<not> isNaN (js_div_length (foldl js_add (Fin 0) (sameKeyValues tn vss k)) (length (sameKeyValues tn vss k))) \<longrightarrow>
            \<lparr>key = k, val = js_div_length (foldl js_add (Fin 0) (sameKeyValues tn vss k))
                             (length (sameKeyValues tn vss k))\<rparr> \<in> set out)"
proof -
  have minmax: "\<lparr>key = k, val = M (sameKeyValues tn vss k)\<rparr> \<in> set out"
    if M: "\<And>n. M [NaN, n] = NaN" "\<And>n. M [n] = n" "\<And>vs n. M [M vs, n] = M (vs @ [n])"
      and o: "out = filter (\<lambda>e. \<not> isNaN (val e))
        (map snd (ownEntries (props (foldl (minmax_step M tn) \<lparr>props = [], proto = None\<rparr> (concat vss)))))"
      and nn: "\<not> isNaN (M (sameKeyValues tn vss k))"
    for M
  proof -
    have "map_of (props (foldl (minmax_step M tn) \<lparr>props = [], proto = None\<rparr> (concat vss))) k
            = Some \<lparr>key = k, val = M (sameKeyValues tn vss k)\<rparr>"
      unfolding sameKeyValues_def
      using minmax_loop_plain [where M = M and tn = tn and xs = "concat vss", OF M np] k kp
      by blast
    then have "(k, \<lparr>key = k, val = M (sameKeyValues tn vss k)\<rparr>)
                 \<in> set (props (foldl (minmax_step M tn) \<lparr>props = [], proto = None\<rparr> (concat vss)))"
      by (rule map_of_SomeD)
    then show ?thesis using nn by (force simp add: o)
  qed
  have avg: "\<lparr>key = k, val = js_div_length (foldl js_add (Fin 0) (sameKeyValues tn vss k))
                             (length (sameKeyValues tn vss k))\<rparr> \<in> set out"
    if f: "f = RunGroupingAggregateFunction_Average"
      and nn: "\<not> isNaN (js_div_length (foldl js_add (Fin 0) (sameKeyValues tn vss k)) (length (sameKeyValues tn vss k)))"
  proof -
    from out obtain vm where vm: "foldE (average_step tn) [] (concat vss) = Inr vm"
      and o: "out = filter (\<lambda>e. \<not> isNaN (val e))
              (map (\<lambda>(k, values). \<lparr>key = k, val = js_div_length (foldl js_add (Fin 0) values) (length values)\<rparr>)
                 (ownEntries vm))"
      by (auto simp add: f aggregateValues_Average split: sum.splits)
    have "map_of vm k = Some (sameKeyValues tn vss k)"
      unfolding sameKeyValues_def
      using average_loop_Inr [OF vm] k by presburger
    then have "(k, sameKeyValues tn vss k) \<in> set vm" by (rule map_of_SomeD)
    then show ?thesis using nn by (force simp add: o)
  qed
  have min: "\<lparr>key = k, val = Math_min (sameKeyValues tn vss k)\<rparr> \<in> set out"
    if "f = RunGroupingAggregateFunction_Min" "\<not> isNaN (Math_min (sameKeyValues tn vss k))"
    using out that
    by (intro minmax [OF Math_min_NaN Math_min_single Math_min_snoc])
       (simp_all add: aggregateValues_Min)
  have max: "\<lparr>key = k, val = Math_max (sameKeyValues tn vss k)\<rparr> \<in> set out"
    if "f = RunGroupingAggregateFunction_Max" "\<not> isNaN (Math_max (sameKeyValues tn vss k))"
    using out that
    by (intro minmax [OF Math_max_NaN Math_max_single Math_max_snoc])
       (simp_all add: aggregateValues_Max)
  from min max avg show ?thesis by blast
qed

lemmas aggregateValues_eval = aggregateValues_def RunGroupingAggregateFunction_Min_def
  RunGroupingAggregateFunction_Max_def RunGroupingAggregateFunction_Average_def
  minmax_step_def average_step_def assign_def inherited_def objectPrototypeKeys_def
  ownEntries_def isArrayIndex_def isDigit_def decimal_def Math_min_def Math_max_def js_def Let_def

subsection \<open>The aggregated values\<close>

text \<open>
  Every entity of the output holds, for its key, the minimum (Min), the maximum (Max) or
  the mean (Average: the sum of the coerced values divided by their count) of all the
  values of that key across the per-run lists, and no entity of the output holds NaN.
  Lemma \<open>aggregateValues_complete\<close> is the converse for the keys that name no property of
  \<open>Object.prototype\<close>.
\<close>

lemma aggregateValues_sound:
  assumes "aggregateValues toNumber valuesByRun f = Inr out"
    and "e \<in> set out"
  shows "\<not> isNaN (val e)
       \<and> (f = RunGroupingAggregateFunction_Min \<longrightarrow>
            val e \<in> set (sameKeyValues toNumber valuesByRun (key e))
            \<and> (\<forall>v \<in> set (sameKeyValues toNumber valuesByRun (key e)). \<not> isNaN v \<and> \<not> js_less v (val e)))
       \<and> (f = RunGroupingAggregateFunction_Max \<longrightarrow>
            val e \<in> set (sameKeyValues toNumber valuesByRun (key e))
            \<and> (\<forall>v \<in> set (sameKeyValues toNumber valuesByRun (key e)). \<not> isNaN v \<and> \<not> js_less (val e) v))
       \<and> (f = RunGroupingAggregateFunction_Average \<longrightarrow>
            val e = js_div_length (foldl js_add (Fin 0) (sameKeyValues toNumber valuesByRun (key e)))
                      (length (sameKeyValues toNumber valuesByRun (key e))))"
proof -
  have unsupported: "f = RunGroupingAggregateFunction_Min \<or> f = RunGroupingAggregateFunction_Max
      \<or> f = RunGroupingAggregateFunction_Average"
    using assms(1) aggregateValues_unsupported [of f toNumber valuesByRun] by auto
  have min: ?thesis if f: "f = RunGroupingAggregateFunction_Min"
  proof -
    from assms have "e \<in> set (filter (\<lambda>e. \<not> isNaN (val e))
        (map snd (ownEntries (props (foldl (minmax_step Math_min toNumber) \<lparr>props = [], proto = None\<rparr> (concat valuesByRun))))))"
      by (simp only: f aggregateValues_Min sum.inject)
    from minmax_output [OF Math_min_NaN Math_min_single Math_min_snoc this]
    have r: "val e \<noteq> NaN" "sameKeyValues toNumber valuesByRun (key e) \<noteq> []"
      "val e = Math_min (sameKeyValues toNumber valuesByRun (key e))" by blast+
    from Math_min_is_minimum [of "sameKeyValues toNumber valuesByRun (key e)"] r
    show ?thesis using f Min_neq_Max Average_neq by (auto simp add: isNaN_iff)
  qed
  have max: ?thesis if f: "f = RunGroupingAggregateFunction_Max"
  proof -
    from assms have "e \<in> set (filter (\<lambda>e. \<not> isNaN (val e))
        (map snd (ownEntries (props (foldl (minmax_step Math_max toNumber) \<lparr>props = [], proto = None\<rparr> (concat valuesByRun))))))"
      by (simp only: f aggregateValues_Max sum.inject)
    from minmax_output [OF Math_max_NaN Math_max_single Math_max_snoc this]
    have r: "val e \<noteq> NaN" "sameKeyValues toNumber valuesByRun (key e) \<noteq> []"
      "val e = Math_max (sameKeyValues toNumber valuesByRun (key e))" by blast+
    from Math_max_is_maximum [of "sameKeyValues toNumber valuesByRun (key e)"] r
    show ?thesis using f Min_neq_Max Average_neq by (auto simp add: isNaN_iff)
  qed
  have avg: ?thesis if f: "f = RunGroupingAggregateFunction_Average"
  proof -
    from assms(1) obtain vm where vm: "foldE (average_step toNumber) [] (concat valuesByRun) = Inr vm"
      and out: "out = filter (\<lambda>e. \<not> isNaN (val e))
              (map (\<lambda>(k, values). \<lparr>key = k, val = js_div_length (foldl js_add (Fin 0) values) (length values)\<rparr>)
                 (ownEntries vm))"
      by (auto simp add: f aggregateValues_Average split: sum.splits)
    from average_output [OF vm assms(2) [unfolded out]]
    show ?thesis using f Average_neq by (auto simp add: isNaN_iff)
  qed
  from unsupported min max avg show ?thesis by blast
qed

text \<open>The two runs with \<open>a = 2\<close> and \<open>a = 4\<close> give 3 for Average, 4 for Max and 2 for Min.\<close>

lemma aggregateValues_examples:
  "aggregateValues toNumber
     [[\<lparr>key = js ''a'', val = VNum (Fin 2)\<rparr>], [\<lparr>key = js ''a'', val = VNum (Fin 4)\<rparr>]]
     RunGroupingAggregateFunction_Average = Inr [\<lparr>key = js ''a'', val = Fin 3\<rparr>]"
  "aggregateValues toNumber
     [[\<lparr>key = js ''a'', val = VNum (Fin 2)\<rparr>], [\<lparr>key = js ''a'', val = VNum (Fin 4)\<rparr>]]
     RunGroupingAggregateFunction_Max = Inr [\<lparr>key = js ''a'', val = Fin 4\<rparr>]"
  "aggregateValues toNumber
     [[\<lparr>key = js ''a'', val = VNum (Fin 2)\<rparr>], [\<lparr>key = js ''a'', val = VNum (Fin 4)\<rparr>]]
     RunGroupingAggregateFunction_Min = Inr [\<lparr>key = js ''a'', val = Fin 2\<rparr>]"
  by (simp_all add: aggregateValues_eval)

text \<open>
  Claim C6 says that for every key the output holds the minimum, the maximum or the mean
  of the values of that key, and that only a key whose aggregate is NaN is absent. The
  code loses a key that names a property of \<open>Object.prototype\<close>: for the single metric
  \<open>constructor = 1\<close> and Min, the minimum of the values of the key is 1, and the output is
  empty (\<open>acc['constructor']\<close> reads the inherited function, so the first value is
  combined with \<open>Number(undefined)\<close>, which is NaN, and the key is filtered out). With
  Average the same input throws.
\<close>

theorem aggregateValues_min_drops_inherited_key:
  "aggregateValues (\<lambda>s. NaN) [[\<lparr>key = js ''constructor'', val = VNum (Fin 1)\<rparr>]]
     RunGroupingAggregateFunction_Min = Inr []
   \<and> Math_min (sameKeyValues (\<lambda>s. NaN) [[\<lparr>key = js ''constructor'', val = VNum (Fin 1)\<rparr>]]
        (js ''constructor'')) = Fin 1"
  by (simp add: aggregateValues_eval sameKeyValues_def)

subsection \<open>The order of the output\<close>

text \<open>
  Claim C3, as stated, fails: for the keys \<open>b\<close> and \<open>1\<close>, met in this order, the output
  lists \<open>1\<close> before \<open>b\<close>.
\<close>

theorem aggregateValues_key_order_counterexample:
  "aggregateValues (\<lambda>s. NaN)
     [[\<lparr>key = js ''b'', val = VNum (Fin 1)\<rparr>, \<lparr>key = js ''1'', val = VNum (Fin 2)\<rparr>]]
     RunGroupingAggregateFunction_Min
   = Inr [\<lparr>key = js ''1'', val = Fin 2\<rparr>, \<lparr>key = js ''b'', val = Fin 1\<rparr>]
   \<and> map key [\<lparr>key = js ''1'', val = Fin 2\<rparr>, \<lparr>key = js ''b'', val = Fin 1\<rparr>]
     \<noteq> firstOccurrences
         (map key (concat [[\<lparr>key = js ''b'', val = VNum (Fin 1)\<rparr>, \<lparr>key = js ''1'', val = VNum (Fin 2)\<rparr>]]))"
  by (simp add: aggregateValues_eval firstOccurrences_def)

text \<open>
  Claim C3, amended: whenever \<open>aggregateValues\<close> returns, the keys of its output are the
  keys it keeps, in the order in which an object enumerates them: the keys that are
  array indices first, in ascending numeric order, then the other keys in the order in
  which each is first met while the per-run lists are scanned in sequence.
\<close>

theorem aggregateValues_key_order:
  assumes "aggregateValues toNumber valuesByRun f = Inr out"
  shows "map key out =
           filter (\<lambda>k. k \<in> key ` set out)
             (propertyOrder (firstOccurrences (map key (concat valuesByRun))))"
proof -
  have unsupported: "f = RunGroupingAggregateFunction_Min \<or> f = RunGroupingAggregateFunction_Max
      \<or> f = RunGroupingAggregateFunction_Average"
    using assms(1) aggregateValues_unsupported [of f toNumber valuesByRun] by auto
  have minmax: ?thesis
    if M: "\<And>n. M [NaN, n] = NaN" "\<And>n. M [n] = n" "\<And>vs n. M [M vs, n] = M (vs @ [n])"
      and out: "out = filter (\<lambda>e. \<not> isNaN (val e))
        (map snd (ownEntries (props (foldl (minmax_step M toNumber) \<lparr>props = [], proto = None\<rparr> (concat valuesByRun)))))"
    for M
  proof -
    let ?ps = "props (foldl (minmax_step M toNumber) \<lparr>props = [], proto = None\<rparr> (concat valuesByRun))"
    let ?F = "firstOccurrences (map key (concat valuesByRun))"
    note L = minmax_loop [of M toNumber "concat valuesByRun", OF M]
    from L have keys: "map fst ?ps = filter (\<lambda>k. k \<noteq> js ''__proto__'') ?F" by blast
    then have d: "distinct (map fst ?ps)" by simp
    have g: "key (snd p) = fst p" if "p \<in> set ?ps" for p
    proof -
      have "map_of ?ps (fst p) = Some (snd p)"
        using map_of_is_SomeI [OF d, of "fst p" "snd p"] that by simp
      with L show ?thesis by blast
    qed
    have 1: "map key out = filter (\<lambda>k. k \<in> key ` set out) (propertyOrder (map fst ?ps))"
      by (rule enumerated_keys [OF d g out])
    have sub: "k \<noteq> js ''__proto__''" if "k \<in> key ` set out" for k
    proof -
      from that have "k \<in> set (map key out)" by simp
      then have "k \<in> set (propertyOrder (map fst ?ps))" by (simp only: 1) simp
      then have "k \<in> set (map fst ?ps)" by (simp only: propertyOrder_def) auto
      then show ?thesis by (simp only: keys) simp
    qed
    have "filter (\<lambda>k. k \<in> key ` set out) (propertyOrder (map fst ?ps))
            = filter (\<lambda>k. k \<in> key ` set out) (filter (\<lambda>k. k \<noteq> js ''__proto__'') (propertyOrder ?F))"
      by (simp only: keys filter_propertyOrder)
    also have "\<dots> = filter (\<lambda>k. k \<in> key ` set out) (propertyOrder ?F)"
      unfolding filter_filter by (rule filter_cong [OF refl]) (use sub in blast)
    finally show ?thesis using 1 by simp
  qed
  have avg: ?thesis if f: "f = RunGroupingAggregateFunction_Average"
  proof -
    from assms(1) obtain vm where vm: "foldE (average_step toNumber) [] (concat valuesByRun) = Inr vm"
      and out: "out = filter (\<lambda>e. \<not> isNaN (val e))
              (map (\<lambda>(k, values). \<lparr>key = k, val = js_div_length (foldl js_add (Fin 0) values) (length values)\<rparr>)
                 (ownEntries vm))"
      by (auto simp add: f aggregateValues_Average split: sum.splits)
    note L = average_loop_Inr [OF vm]
    from L have keys: "map fst vm = firstOccurrences (map key (concat valuesByRun))" by blast
    then have d: "distinct (map fst vm)" by simp
    have "map key out = filter (\<lambda>k. k \<in> key ` set out) (propertyOrder (map fst vm))"
      by (rule enumerated_keys [OF d _ out]) auto
    then show ?thesis by (simp only: keys)
  qed
  from unsupported show ?thesis
  proof (elim disjE)
    assume f: "f = RunGroupingAggregateFunction_Min"
    from assms show ?thesis
      by (intro minmax [OF Math_min_NaN Math_min_single Math_min_snoc])
         (simp only: f aggregateValues_Min sum.inject)
  next
    assume f: "f = RunGroupingAggregateFunction_Max"
    from assms show ?thesis
      by (intro minmax [OF Math_max_NaN Math_max_single Math_max_snoc])
         (simp only: f aggregateValues_Max sum.inject)
  next
    assume "f = RunGroupingAggregateFunction_Average"
    then show ?thesis by (rule avg)
  qed
qed

theorem aggregateValues_key_order_witness:
  "aggregateValues (\<lambda>s. NaN)
     [[\<lparr>key = js ''b'', val = VNum (Fin 1)\<rparr>, \<lparr>key = js ''1'', val = VNum (Fin 2)\<rparr>],
      [\<lparr>key = js ''a'', val = VNum (Fin 1)\<rparr>, \<lparr>key = js ''b'', val = VNum (Fin 5)\<rparr>]]
     RunGroupingAggregateFunction_Max
   = Inr [\<lparr>key = js ''1'', val = Fin 2\<rparr>, \<lparr>key = js ''b'', val = Fin 5\<rparr>, \<lparr>key = js ''a'', val = Fin 1\<rparr>]
   \<and> [js ''1'', js ''b'', js ''a'']
     = filter (\<lambda>k. k \<in> {js ''1'', js ''b'', js ''a''})
         (propertyOrder (firstOccurrences [js ''b'', js ''1'', js ''a'', js ''b'']))"
  using aggregateValues_key_order [of "\<lambda>s. NaN"
        "[[\<lparr>key = js ''b'', val = VNum (Fin 1)\<rparr>, \<lparr>key = js ''1'', val = VNum (Fin 2)\<rparr>],
          [\<lparr>key = js ''a'', val = VNum (Fin 1)\<rparr>, \<lparr>key = js ''b'', val = VNum (Fin 5)\<rparr>]]"
        RunGroupingAggregateFunction_Max
        "[\<lparr>key = js ''1'', val = Fin 2\<rparr>, \<lparr>key = js ''b'', val = Fin 5\<rparr>, \<lparr>key = js ''a'', val = Fin 1\<rparr>]"]
  by (simp add: aggregateValues_eval)

subsection \<open>The exceptions\<close>

text \<open>
  Claim C8 says that \<open>aggregateValues\<close> throws exactly when the aggregate function is
  none of Min, Max and Average. The code also throws with Average, when a key names a
  property of \<open>Object.prototype\<close>: for the single metric \<open>constructor = 1\<close> it ends with a
  TypeError (\<open>aggregateValues_throws_iff\<close> gives the exact condition).
\<close>

theorem aggregateValues_average_inherited_key_throws:
  "aggregateValues (\<lambda>s. NaN) [[\<lparr>key = js ''constructor'', val = VNum (Fin 1)\<rparr>]]
     RunGroupingAggregateFunction_Average = Inl TypeError"
  by (simp add: aggregateValues_eval)

section \<open>Properties of the grouping\<close>

lemmas grouping_eval = getGroupedRowRenderMetadata_def createRunsGroupedByValue_def
  groupByValue_step_def createGroupRenderMetadata_def metricsByRun_def paramsByRun_def
  remainingRunsGroup_def createGroupId_def
  isGroupExpanded_def isRemainingGroupExpanded_def createRunRow_def tagValue_def
  RunGroupingMode_Tag_def RunGroupingMode_Param_def RunGroupingMode_Dataset_def
  EXPERIMENT_PARENT_ID_TAG_def

subsection \<open>The loop of \<open>createRunsGroupedByValue\<close>\<close>

lemma groupByValue_step_cases:
  "groupByValue_step heap vg (groups, ungroupedRuns) run =
     (case groupingValue heap vg run of
        None \<Rightarrow> Inr (groups, ungroupedRuns @ [run])
      | Some v \<Rightarrow>
          (case map_of groups v of
             Some runs \<Rightarrow> Inr (AList.update v (runs @ [run]) groups, ungroupedRuns)
           | None \<Rightarrow>
               if v \<in> set objectPrototypeKeys then Inl TypeError
               else Inr (AList.update v [run] groups, ungroupedRuns)))"
proof (cases "vg (heap run)")
  case None
  then show ?thesis by (simp add: groupByValue_step_def groupingValue_def)
next
  case (Some v)
  then show ?thesis
    by (cases "v = []") (simp_all add: groupByValue_step_def groupingValue_def split: option.split)
qed

lemma map_filter_snoc:
  "List.map_filter f (xs @ [x]) = List.map_filter f xs @ (case f x of None \<Rightarrow> [] | Some y \<Rightarrow> [y])"
  by (simp add: List.map_filter_def split: option.split)

lemma set_map_filter: "set (List.map_filter f xs) = {y. \<exists>x \<in> set xs. f x = Some y}"
  by (induction xs) (auto split: option.splits)

lemma groupByValue_loop_Inr:
  "foldE (groupByValue_step heap vg) ([], []) rs = Inr (groups, ungroupedRuns) \<Longrightarrow>
     map fst groups = firstOccurrences (List.map_filter (groupingValue heap vg) rs)
     \<and> (\<forall>v. map_of groups v =
            (if \<exists>r \<in> set rs. groupingValue heap vg r = Some v
             then Some (filter (\<lambda>r. groupingValue heap vg r = Some v) rs) else None))
     \<and> ungroupedRuns = filter (\<lambda>r. groupingValue heap vg r = None) rs
     \<and> (\<forall>r \<in> set rs. \<forall>v. groupingValue heap vg r = Some v \<longrightarrow> v \<notin> set objectPrototypeKeys)"
proof (induction rs arbitrary: groups ungroupedRuns rule: rev_induct)
  case Nil
  then show ?case by (auto simp add: List.map_filter_def)
next
  case (snoc x xs)
  from snoc.prems obtain g0 u0 where s0: "foldE (groupByValue_step heap vg) ([], []) xs = Inr (g0, u0)"
    and step: "groupByValue_step heap vg (g0, u0) x = Inr (groups, ungroupedRuns)"
    by (auto simp add: foldE_append split: sum.splits)
  note IH = snoc.IH [OF s0]
  from IH have keys: "map fst g0 = firstOccurrences (List.map_filter (groupingValue heap vg) xs)"
    and vals: "\<And>v. map_of g0 v =
            (if \<exists>r \<in> set xs. groupingValue heap vg r = Some v
             then Some (filter (\<lambda>r. groupingValue heap vg r = Some v) xs) else None)"
    and ung: "u0 = filter (\<lambda>r. groupingValue heap vg r = None) xs"
    and np: "\<And>r v. r \<in> set xs \<Longrightarrow> groupingValue heap vg r = Some v \<Longrightarrow> v \<notin> set objectPrototypeKeys"
    by blast+
  show ?case
  proof (cases "groupingValue heap vg x")
    case None
    with step have "groups = g0" "ungroupedRuns = u0 @ [x]"
      by (simp_all add: groupByValue_step_cases)
    then show ?thesis using None keys vals ung np
      by (auto simp add: map_filter_snoc)
  next
    case (Some v)
    have none_filter: "filter (\<lambda>r. groupingValue heap vg r = Some v) xs = []"
      if "map_of g0 v = None"
      using that vals [of v] by (auto simp add: filter_empty_conv split: if_splits)
    have in_keys: "v \<in> set (List.map_filter (groupingValue heap vg) xs) \<longleftrightarrow> map_of g0 v \<noteq> None"
      using vals [of v] by (auto simp add: set_map_filter)
    have dom: "v \<in> fst ` set g0 \<longleftrightarrow> map_of g0 v \<noteq> None"
      by (simp add: map_of_None_iff)
    from step Some obtain runs' where g: "groups = AList.update v runs' g0"
      and u: "ungroupedRuns = u0"
      and runs': "runs' = filter (\<lambda>r. groupingValue heap vg r = Some v) (xs @ [x])"
      and vp: "v \<notin> set objectPrototypeKeys"
    proof (cases "map_of g0 v")
      case None
      with step Some that none_filter show ?thesis
        by (auto simp add: groupByValue_step_cases split: if_splits)
    next
      case (Some runs)
      then have "runs = filter (\<lambda>r. groupingValue heap vg r = Some v) xs"
        using vals [of v] by (auto split: if_splits)
      moreover from Some obtain r where "r \<in> set xs" "groupingValue heap vg r = Some v"
        using vals [of v] by (auto split: if_splits)
      then have "v \<notin> set objectPrototypeKeys" using np by blast
      ultimately show ?thesis using step \<open>groupingValue heap vg x = Some v\<close> Some that
        by (auto simp add: groupByValue_step_cases)
    qed
    have k: "map fst groups = firstOccurrences (List.map_filter (groupingValue heap vg) (xs @ [x]))"
      using keys in_keys dom Some
      by (simp add: g update_keys map_filter_snoc firstOccurrences_snoc del: map_of_eq_None_iff)
    have m: "\<forall>w. map_of groups w =
            (if \<exists>r \<in> set (xs @ [x]). groupingValue heap vg r = Some w
             then Some (filter (\<lambda>r. groupingValue heap vg r = Some w) (xs @ [x])) else None)"
      using vals Some by (auto simp add: g update_conv' runs')
    show ?thesis using k m u ung np vp Some by auto
  qed
qed

lemma groupByValue_loop_total:
  "\<forall>r \<in> set rs. \<forall>v. groupingValue heap vg r = Some v \<longrightarrow> v \<notin> set objectPrototypeKeys \<Longrightarrow>
   \<exists>res. foldE (groupByValue_step heap vg) state rs = Inr res"
proof (induction rs arbitrary: state)
  case Nil
  show ?case by simp
next
  case (Cons r rs)
  obtain g u where st: "state = (g, u)" by (cases state)
  have "\<exists>s'. groupByValue_step heap vg state r = Inr s'"
    using Cons.prems by (auto simp add: st groupByValue_step_cases split: option.split)
  then show ?case using Cons by auto
qed

subsection \<open>The records of a group\<close>

lemma createGroupRenderMetadata_Inr:
  "createGroupRenderMetadata tn heap gid expanded runs f gv rem = Inr recs \<longleftrightarrow>
     (\<exists>am ap. aggregateValues tn (metricsByRun heap runs) f = Inr am
        \<and> aggregateValues tn (paramsByRun heap runs) f = Inr ap
        \<and> recs = GroupRow \<lparr>groupId = gid, isGroup = True, expanderOpen = expanded,
                     runUuids = map (\<lambda>run. run_uuid (runInfo (heap run))) runs,
                     aggregatedMetricEntities = am, aggregatedParamEntities = ap, groupValue = gv\<rparr>
                 # (if expanded then map (createRunRow heap gid rem) runs else []))"
  by (auto simp add: createGroupRenderMetadata_def Let_def split: sum.splits)

lemma createGroupRenderMetadata_length:
  "createGroupRenderMetadata tn heap gid expanded runs f gv rem = Inr recs \<Longrightarrow>
     length recs = (if expanded then 1 + length runs else 1)"
  by (auto simp add: createGroupRenderMetadata_Inr)

lemma createGroupRenderMetadata_total:
  assumes "f = RunGroupingAggregateFunction_Min \<or> f = RunGroupingAggregateFunction_Max"
  shows "\<exists>recs. createGroupRenderMetadata tn heap gid expanded runs f gv rem = Inr recs"
  using assms
  by (auto simp add: createGroupRenderMetadata_def Let_def aggregateValues_Min aggregateValues_Max)

lemma concatMapE_length:
  assumes "concatMapE g xs = Inr ys"
    and "\<And>x zs. x \<in> set xs \<Longrightarrow> g x = Inr zs \<Longrightarrow> length zs = n x"
  shows "length ys = sum_list (map n xs)"
  using assms
proof (induction xs arbitrary: ys)
  case Nil
  then show ?case by simp
next
  case (Cons x xs)
  from Cons.prems(1) obtain zs ws where z: "g x = Inr zs" and w: "concatMapE g xs = Inr ws"
    and ys: "ys = zs @ ws"
    by (auto split: sum.splits)
  have "length ws = sum_list (map n xs)" using Cons.IH [OF w] Cons.prems(2) by simp
  moreover have "length zs = n x" using Cons.prems(2) z by simp
  ultimately show ?case by (simp add: ys)
qed

lemma remainingRunsGroup_length:
  "remainingRunsGroup tn heap ge f m k ungroupedRuns = Inr recs \<Longrightarrow>
     length recs =
       (if ungroupedRuns = [] then 0
        else if isRemainingGroupExpanded ge (createGroupId m k None) then 1 + length ungroupedRuns
        else 1)"
  by (auto simp add: remainingRunsGroup_def Let_def dest: createGroupRenderMetadata_length split: if_splits)

lemma createRunsGroupedByValue_length:
  assumes "createRunsGroupedByValue tn heap vg runData ge f m k = Inr result"
  shows "\<exists>groups ungroupedRuns.
           foldE (groupByValue_step heap vg) ([], []) runData = Inr (groups, ungroupedRuns)
           \<and> length result =
               sum_list (map (\<lambda>(v, runs). if isGroupExpanded ge (createGroupId m k (Some v))
                                           then 1 + length runs else 1) (ownEntries groups))
               + (if ungroupedRuns = [] then 0
                  else if isRemainingGroupExpanded ge (createGroupId m k None)
                  then 1 + length ungroupedRuns else 1)"
proof -
  from assms obtain groups ungroupedRuns res remaining
    where loop: "foldE (groupByValue_step heap vg) ([], []) runData = Inr (groups, ungroupedRuns)"
      and res: "concatMapE
                  (\<lambda>(tagValue', runs).
                     (let groupId' = createGroupId m k (Some tagValue')
                      in createGroupRenderMetadata tn heap groupId'
                           (isGroupExpanded ge groupId') runs f (GroupString tagValue') False))
                  (ownEntries groups) = Inr res"
      and rem: "remainingRunsGroup tn heap ge f m k ungroupedRuns = Inr remaining"
      and result: "result = res @ remaining"
    by (auto simp add: createRunsGroupedByValue_def split: sum.splits prod.splits)
  have "length res = sum_list (map (\<lambda>(v, runs). if isGroupExpanded ge (createGroupId m k (Some v))
                                           then 1 + length runs else 1) (ownEntries groups))"
    by (rule concatMapE_length [OF res])
       (auto simp add: Let_def dest: createGroupRenderMetadata_length)
  then show ?thesis using loop rem result by (simp add: remainingRunsGroup_length)
qed

subsection \<open>The buckets of \<open>createRunsGroupedByDataset\<close>\<close>

lemma uniqBy_fold:
  "f ` set (foldl (\<lambda>result x. if f x \<in> f ` set result then result else result @ [x]) acc xs)
     = f ` set acc \<union> f ` set xs"
  by (induction xs arbitrary: acc) auto

lemma set_uniqBy: "f ` set (uniqBy f xs) = f ` set xs"
  by (simp add: uniqBy_def uniqBy_fold)

lemma keyBy_fold:
  "fst ` set (foldl (\<lambda>result x. AList.update (f x) x result) acc xs) = fst ` set acc \<union> f ` set xs
   \<and> (distinct (map fst acc) \<longrightarrow> distinct (map fst (foldl (\<lambda>result x. AList.update (f x) x result) acc xs)))"
  by (induction xs arbitrary: acc) (auto simp add: dom_update distinct_update)

lemma keys_keyBy: "fst ` set (keyBy f xs) = f ` set xs"
  using keyBy_fold [of f "[]" xs] by (simp add: keyBy_def)

lemma distinct_keyBy: "distinct (map fst (keyBy f xs))"
  using keyBy_fold [of f "[]" xs] by (simp add: keyBy_def)

lemma distinct_propertyOrder: "distinct ks \<Longrightarrow> distinct (propertyOrder ks)"
  by (auto simp add: propertyOrder_def)

lemma set_mapValues: "set (mapValues h object) = (\<lambda>(k, v). (k, h v)) ` set object"
  by (simp add: mapValues_def)

lemma map_fst_mapValues: "map fst (mapValues h object) = propertyOrder (map fst object)"
proof -
  have c: "fst \<circ> (\<lambda>(k, v). (k, h v)) = fst"
    by (auto simp add: fun_eq_iff)
  have "map fst (mapValues h object) = map (fst \<circ> (\<lambda>(k, v). (k, h v))) (ownEntries object)"
    by (simp add: mapValues_def)
  also have "\<dots> = map fst (ownEntries object)" by (simp only: c)
  also have "\<dots> = propertyOrder (map fst object)" by (rule map_fst_ownEntries)
  finally show ?thesis .
qed

lemma set_propertyOrder [simp]: "set (propertyOrder ks) = set ks"
  by (auto simp add: propertyOrder_def)

lemma set_update_subset: "set (AList.update k v al) \<subseteq> insert (k, v) (set al)"
  by (induction al) auto

lemma keyBy_fold_entries:
  "(k, v) \<in> set (foldl (\<lambda>result x. AList.update (f x) x result) acc xs) \<Longrightarrow>
     (k, v) \<in> set acc \<or> (f v = k \<and> v \<in> set xs)"
proof (induction xs arbitrary: acc)
  case Nil
  then show ?case by simp
next
  case (Cons x xs)
  from Cons.prems have "(k, v) \<in> set (foldl (\<lambda>result x. AList.update (f x) x result) (AList.update (f x) x acc) xs)"
    by simp
  from Cons.IH [OF this] have "(k, v) \<in> set (AList.update (f x) x acc) \<or> f v = k \<and> v \<in> set xs" .
  moreover have "set (AList.update (f x) x acc) \<subseteq> insert (f x, x) (set acc)"
    by (rule set_update_subset)
  ultimately show ?case by auto
qed

lemma keyBy_entries: "(k, v) \<in> set (keyBy f xs) \<Longrightarrow> f v = k \<and> v \<in> set xs"
  using keyBy_fold_entries [of k v f "[]" xs] by (simp add: keyBy_def)

lemma uniqBy_fold_subset:
  "set (foldl (\<lambda>result x. if f x \<in> f ` set result then result else result @ [x]) acc xs)
     \<subseteq> set acc \<union> set xs"
proof (induction xs arbitrary: acc)
  case Nil
  show ?case by simp
next
  case (Cons x xs)
  let ?acc' = "if f x \<in> f ` set acc then acc else acc @ [x]"
  have "set (foldl (\<lambda>result x. if f x \<in> f ` set result then result else result @ [x]) ?acc' xs)
          \<subseteq> set ?acc' \<union> set xs"
    by (rule Cons.IH)
  moreover have "set ?acc' \<subseteq> set acc \<union> {x}" by auto
  ultimately show ?case by auto
qed

lemma set_uniqBy_subset: "set (uniqBy f xs) \<subseteq> set xs"
  using uniqBy_fold_subset [of f "[]" xs] by (simp add: uniqBy_def)

text \<open>The buckets before the loop: one empty bucket for every identifier of the run list.\<close>

lemma initial_buckets:
  fixes heap runData
  defines "g0 \<equiv> mapValues (\<lambda>u. \<lparr>group_dataset = fst u, group_runs = []\<rparr>)
                   (keyBy snd (getUniqueDatasets heap runData))"
  shows "distinct (map fst g0)"
    and "fst ` set g0 = (\<Union>r \<in> set runData. set (runDatasetIdentifiers heap r))"
    and "\<And>k grp. map_of g0 k = Some grp \<Longrightarrow> group_runs grp = []"
proof -
  show d: "distinct (map fst g0)"
    by (simp add: g0_def map_fst_mapValues distinct_propertyOrder distinct_keyBy)
  have "fst ` set g0 = set (map fst g0)" by simp
  also have "\<dots> = fst ` set (keyBy snd (getUniqueDatasets heap runData))"
    by (simp add: g0_def map_fst_mapValues)
  also have "\<dots> = (\<Union>r \<in> set runData. set (runDatasetIdentifiers heap r))"
    by (auto simp add: keys_keyBy getUniqueDatasets_def set_uniqBy runDatasetIdentifiers_def image_iff)
       blast+
  finally show "fst ` set g0 = (\<Union>r \<in> set runData. set (runDatasetIdentifiers heap r))" .
  fix k grp assume "map_of g0 k = Some grp"
  then have "(k, grp) \<in> set g0" by (rule map_of_SomeD)
  then show "group_runs grp = []" by (auto simp add: g0_def set_mapValues)
qed

lemma initial_bucket_identifier:
  assumes "map_of (mapValues (\<lambda>u. \<lparr>group_dataset = fst u, group_runs = []\<rparr>)
                   (keyBy snd (getUniqueDatasets heap runData))) k = Some grp"
  shows "dataset_identifier (group_dataset grp) = k"
proof -
  from assms have "(k, grp) \<in> set (mapValues (\<lambda>u. \<lparr>group_dataset = fst u, group_runs = []\<rparr>)
                   (keyBy snd (getUniqueDatasets heap runData)))"
    by (rule map_of_SomeD)
  then obtain u where u: "(k, u) \<in> set (keyBy snd (getUniqueDatasets heap runData))"
    and grp: "grp = \<lparr>group_dataset = fst u, group_runs = []\<rparr>"
    by (auto simp add: set_mapValues)
  from keyBy_entries [OF u] have s: "snd u = k" and g: "u \<in> set (getUniqueDatasets heap runData)"
    by simp_all
  have "set (getUniqueDatasets heap runData)
          \<subseteq> set (concat (map (\<lambda>r. map (\<lambda>d. (dataset d, dataset_identifier (dataset d)))
                                   (datasets (heap r))) runData))"
    unfolding getUniqueDatasets_def by (rule set_uniqBy_subset)
  with g have "u \<in> set (concat (map (\<lambda>r. map (\<lambda>d. (dataset d, dataset_identifier (dataset d)))
                                   (datasets (heap r))) runData))"
    by (rule subsetD [rotated])
  then have "dataset_identifier (fst u) = snd u" by auto
  then show ?thesis by (simp add: grp s)
qed

text \<open>One run, pushed on the buckets of its identifiers.\<close>

lemma pushRunOnce_fold:
  "map fst (foldl (pushRunOnce run) g ids) = map fst g
   \<and> (\<forall>k. map_of (foldl (pushRunOnce run) g ids) k =
         (case map_of g k of
            None \<Rightarrow> None
          | Some grp \<Rightarrow>
              Some (if k \<in> set ids \<and> run \<notin> set (group_runs grp)
                    then grp\<lparr>group_runs := group_runs grp @ [run]\<rparr> else grp)))"
proof (induction ids arbitrary: g)
  case Nil
  show ?case by (simp split: option.split)
next
  case (Cons i ids)
  let ?g1 = "pushRunOnce run g i"
  have k1: "map fst ?g1 = map fst g"
    by (auto simp add: pushRunOnce_def update_keys map_of_None_iff split: option.split)
       (metis fst_conv image_eqI map_of_SomeD)
  have m1: "map_of ?g1 k =
         (case map_of g k of
            None \<Rightarrow> None
          | Some grp \<Rightarrow>
              Some (if k = i \<and> run \<notin> set (group_runs grp)
                    then grp\<lparr>group_runs := group_runs grp @ [run]\<rparr> else grp))" for k
    by (auto simp add: pushRunOnce_def update_conv' split: option.split)
  show ?case
    using Cons.IH [of ?g1] by (auto simp add: k1 m1 split: option.split)
qed

lemma groupByDataset_loop:
  assumes "\<And>k grp. map_of g0 k = Some grp \<Longrightarrow>
             group_runs grp = [] \<and> dataset_identifier (group_dataset grp) = k"
    and "foldl (groupByDataset_step heap) (g0, []) xs = (g, u)"
  shows "map fst g = map fst g0
       \<and> u = filter (\<lambda>r. runDatasetIdentifiers heap r = []) xs
       \<and> (\<forall>k grp. map_of g k = Some grp \<longrightarrow>
             distinct (group_runs grp)
             \<and> set (group_runs grp) = {r \<in> set xs. k \<in> set (runDatasetIdentifiers heap r)}
             \<and> dataset_identifier (group_dataset grp) = k)"
  using assms(2)
proof (induction xs arbitrary: g u rule: rev_induct)
  case Nil
  then show ?case using assms(1) by auto
next
  case (snoc x xs)
  obtain g1 u1 where s1: "foldl (groupByDataset_step heap) (g0, []) xs = (g1, u1)"
    by (cases "foldl (groupByDataset_step heap) (g0, []) xs")
  note IH = snoc.IH [OF s1]
  let ?ids = "runDatasetIdentifiers heap x"
  from snoc.prems have "groupByDataset_step heap (g1, u1) x = (g, u)"
    by (simp add: s1)
  then have g: "g = foldl (pushRunOnce x) g1 ?ids"
    and u: "u = (if ?ids = [] then u1 @ [x] else u1)"
    by (simp_all add: groupByDataset_step_def Let_def)
  note P = pushRunOnce_fold [of x g1 ?ids]
  have keys: "map fst g = map fst g0" using P IH by (simp add: g)
  have ung: "u = filter (\<lambda>r. runDatasetIdentifiers heap r = []) (xs @ [x])"
    using IH by (simp add: u)
  have buckets: "distinct (group_runs grp)
       \<and> set (group_runs grp) = {r \<in> set (xs @ [x]). k \<in> set (runDatasetIdentifiers heap r)}
       \<and> dataset_identifier (group_dataset grp) = k"
    if m: "map_of g k = Some grp" for k grp
  proof -
    from m P obtain grp1 where m1: "map_of g1 k = Some grp1"
      and grp: "grp = (if k \<in> set ?ids \<and> x \<notin> set (group_runs grp1)
                       then grp1\<lparr>group_runs := group_runs grp1 @ [x]\<rparr> else grp1)"
      by (auto simp add: g split: option.splits)
    from IH m1 have d1: "distinct (group_runs grp1)"
      and s1: "set (group_runs grp1) = {r \<in> set xs. k \<in> set (runDatasetIdentifiers heap r)}"
      and i1: "dataset_identifier (group_dataset grp1) = k"
      by blast+
    show ?thesis
    proof (cases "k \<in> set ?ids")
      case True
      then show ?thesis using d1 s1 i1 by (auto simp add: grp)
    next
      case False
      then show ?thesis using d1 s1 i1 by (auto simp add: grp)
    qed
  qed
  show ?case using keys ung buckets by blast
qed

lemma count_list_distinct:
  "distinct xs \<Longrightarrow> x \<in> set xs \<Longrightarrow> count_list xs x = 1"
  by (induction xs) auto

text \<open>
  Membership in the buckets: a run that references datasets is held exactly once by the
  bucket stored under the identifier \<open>name.digest\<close> of every dataset it references, also
  when it references a dataset twice, and by no other bucket; a run without dataset
  references is held by the remaining runs and by no bucket.
\<close>

lemma dataset_bucket_membership:
  assumes "datasetGroups heap runData = (groups, ungroupedRuns)"
    and "run \<in> set runData"
  shows "distinct (map fst groups)
       \<and> (\<forall>d \<in> set (datasets (heap run)).
            \<exists>grp. map_of groups (dataset_identifier (dataset d)) = Some grp
                  \<and> dataset_identifier (group_dataset grp) = dataset_identifier (dataset d)
                  \<and> count_list (group_runs grp) run = 1)
       \<and> (\<forall>k grp. map_of groups k = Some grp \<and> run \<in> set (group_runs grp) \<longrightarrow>
            (\<exists>d \<in> set (datasets (heap run)). k = dataset_identifier (dataset d)))
       \<and> (datasets (heap run) = [] \<longrightarrow>
            run \<in> set ungroupedRuns \<and> (\<forall>k grp. map_of groups k = Some grp \<longrightarrow> run \<notin> set (group_runs grp)))
       \<and> (datasets (heap run) \<noteq> [] \<longrightarrow> run \<notin> set ungroupedRuns)"
proof -
  let ?g0 = "mapValues (\<lambda>u. \<lparr>group_dataset = fst u, group_runs = []\<rparr>)
               (keyBy snd (getUniqueDatasets heap runData))"
  note I = initial_buckets [of heap runData]
  from assms(1) have loop: "foldl (groupByDataset_step heap) (?g0, []) runData = (groups, ungroupedRuns)"
    by (simp add: datasetGroups_def)
  have L: "map fst groups = map fst ?g0
       \<and> ungroupedRuns = filter (\<lambda>r. runDatasetIdentifiers heap r = []) runData
       \<and> (\<forall>k grp. map_of groups k = Some grp \<longrightarrow>
             distinct (group_runs grp)
             \<and> set (group_runs grp) = {r \<in> set runData. k \<in> set (runDatasetIdentifiers heap r)}
             \<and> dataset_identifier (group_dataset grp) = k)"
  proof (rule groupByDataset_loop [OF _ loop])
    fix k grp assume m: "map_of ?g0 k = Some grp"
    show "group_runs grp = [] \<and> dataset_identifier (group_dataset grp) = k"
      using I(3) [OF m] initial_bucket_identifier [OF m] by (rule conjI)
  qed
  from L have keys: "map fst groups = map fst ?g0"
    and ung: "ungroupedRuns = filter (\<lambda>r. runDatasetIdentifiers heap r = []) runData"
    and buckets: "\<And>k grp. map_of groups k = Some grp \<Longrightarrow>
             distinct (group_runs grp)
             \<and> set (group_runs grp) = {r \<in> set runData. k \<in> set (runDatasetIdentifiers heap r)}
             \<and> dataset_identifier (group_dataset grp) = k"
    by blast+
  have d: "distinct (map fst groups)" using I(1) by (simp only: keys)
  have dom: "fst ` set groups = (\<Union>r \<in> set runData. set (runDatasetIdentifiers heap r))"
  proof -
    have "fst ` set groups = set (map fst groups)" by simp
    also have "\<dots> = fst ` set ?g0" by (simp only: keys) simp
    finally show ?thesis using I(2) by simp
  qed
  have ids: "set (runDatasetIdentifiers heap run) = (\<lambda>d. dataset_identifier (dataset d)) ` set (datasets (heap run))"
    by (simp add: runDatasetIdentifiers_def)
  have empty: "runDatasetIdentifiers heap r = [] \<longleftrightarrow> datasets (heap r) = []" for r
    by (simp add: runDatasetIdentifiers_def)
  have a: "\<exists>grp. map_of groups (dataset_identifier (dataset d)) = Some grp
                  \<and> dataset_identifier (group_dataset grp) = dataset_identifier (dataset d)
                  \<and> count_list (group_runs grp) run = 1"
    if dd: "d \<in> set (datasets (heap run))" for d
  proof -
    let ?k = "dataset_identifier (dataset d)"
    have k: "?k \<in> set (runDatasetIdentifiers heap run)" using dd ids by blast
    then have "?k \<in> fst ` set groups" using assms(2) dom by blast
    then obtain grp where m: "map_of groups ?k = Some grp"
      by (metis map_of_None_iff not_Some_eq)
    from buckets [OF m] k assms(2) have dr: "distinct (group_runs grp)" "run \<in> set (group_runs grp)"
      and i: "dataset_identifier (group_dataset grp) = ?k"
      by simp_all
    from dr have "count_list (group_runs grp) run = 1" by (rule count_list_distinct)
    with m i show ?thesis by blast
  qed
  have b: "\<exists>d \<in> set (datasets (heap run)). k = dataset_identifier (dataset d)"
    if "map_of groups k = Some grp \<and> run \<in> set (group_runs grp)" for k grp
  proof -
    from that buckets [of k grp] have "k \<in> set (runDatasetIdentifiers heap run)" by simp
    then show ?thesis using ids by blast
  qed
  have c: "run \<in> set ungroupedRuns \<longleftrightarrow> datasets (heap run) = []"
    using assms(2) by (simp add: ung empty)
  have e: "run \<notin> set (group_runs grp)"
    if "datasets (heap run) = []" "map_of groups k = Some grp" for k grp
    using b [of k grp] that by auto
  from d a b c e show ?thesis by blast
qed


lemma uniqBy_snoc:
  "uniqBy f (xs @ [x]) = (if f x \<in> f ` set xs then uniqBy f xs else uniqBy f xs @ [x])"
  using set_uniqBy [of f xs] by (simp add: uniqBy_def)

lemma map_uniqBy: "map f (uniqBy f xs) = firstOccurrences (map f xs)"
proof (induction xs rule: rev_induct)
  case Nil
  show ?case by (simp add: uniqBy_def)
next
  case (snoc x xs)
  then show ?case by (simp add: uniqBy_snoc firstOccurrences_snoc)
qed












subsection \<open>The groups of \<open>createRunsGroupedByDataset\<close>\<close>









subsection \<open>The records of a grouping pass\<close>

text \<open>
  The records of a group, when its two aggregations do not throw (they never do for Min
  and Max): one header first, holding the aggregated metrics and parameters whatever the
  flag, then one row per member exactly when the group is expanded. With an empty expand
  state a concrete group is expanded and the group of the remaining runs is collapsed,
  which is expanded only when its entry is true.
\<close>

lemma group_records:
  "(createGroupRenderMetadata toNumber heap gid expanded runs f gv isRemaining = Inr recs \<longrightarrow>
      (\<exists>h. recs = GroupRow h # (if expanded then map (createRunRow heap gid isRemaining) runs else [])
           \<and> isGroup h \<and> expanderOpen h = expanded
           \<and> aggregateValues toNumber (metricsByRun heap runs) f = Inr (aggregatedMetricEntities h)
           \<and> aggregateValues toNumber (paramsByRun heap runs) f = Inr (aggregatedParamEntities h))
      \<and> length recs = (if expanded then 1 + length runs else 1))
   \<and> (f = RunGroupingAggregateFunction_Min \<or> f = RunGroupingAggregateFunction_Max \<longrightarrow>
        (\<exists>recs'. createGroupRenderMetadata toNumber heap gid expanded runs f gv isRemaining = Inr recs'))
   \<and> isGroupExpanded Map.empty gid
   \<and> \<not> isRemainingGroupExpanded Map.empty gid
   \<and> (isGroupExpanded groupsExpanded gid \<longleftrightarrow> groupsExpanded gid \<noteq> Some False)
   \<and> (isRemainingGroupExpanded groupsExpanded gid \<longleftrightarrow> groupsExpanded gid = Some True)
   \<and> (createRunsGroupedByValue toNumber heap valueGetter runData groupsExpanded f groupByMode groupByKey
          = Inr result \<longrightarrow>
        (\<exists>groups ungroupedRuns.
           foldE (groupByValue_step heap valueGetter) ([], []) runData = Inr (groups, ungroupedRuns)
           \<and> length result =
               sum_list (map (\<lambda>(v, members).
                                if isGroupExpanded groupsExpanded (createGroupId groupByMode groupByKey (Some v))
                                then 1 + length members else 1) (ownEntries groups))
               + (if ungroupedRuns = [] then 0
                  else if isRemainingGroupExpanded groupsExpanded (createGroupId groupByMode groupByKey None)
                  then 1 + length ungroupedRuns else 1)))"
proof -
  have one: "createGroupRenderMetadata toNumber heap gid expanded runs f gv isRemaining = Inr recs \<longrightarrow>
      (\<exists>h. recs = GroupRow h # (if expanded then map (createRunRow heap gid isRemaining) runs else [])
           \<and> isGroup h \<and> expanderOpen h = expanded
           \<and> aggregateValues toNumber (metricsByRun heap runs) f = Inr (aggregatedMetricEntities h)
           \<and> aggregateValues toNumber (paramsByRun heap runs) f = Inr (aggregatedParamEntities h))
      \<and> length recs = (if expanded then 1 + length runs else 1)"
  proof (intro impI)
    assume "createGroupRenderMetadata toNumber heap gid expanded runs f gv isRemaining = Inr recs"
    then obtain am ap where am: "aggregateValues toNumber (metricsByRun heap runs) f = Inr am"
      and ap: "aggregateValues toNumber (paramsByRun heap runs) f = Inr ap"
      and recs: "recs = GroupRow \<lparr>groupId = gid, isGroup = True, expanderOpen = expanded,
                     runUuids = map (\<lambda>run. run_uuid (runInfo (heap run))) runs,
                     aggregatedMetricEntities = am, aggregatedParamEntities = ap, groupValue = gv\<rparr>
                 # (if expanded then map (createRunRow heap gid isRemaining) runs else [])"
      unfolding createGroupRenderMetadata_Inr by blast
    show "(\<exists>h. recs = GroupRow h # (if expanded then map (createRunRow heap gid isRemaining) runs else [])
           \<and> isGroup h \<and> expanderOpen h = expanded
           \<and> aggregateValues toNumber (metricsByRun heap runs) f = Inr (aggregatedMetricEntities h)
           \<and> aggregateValues toNumber (paramsByRun heap runs) f = Inr (aggregatedParamEntities h))
      \<and> length recs = (if expanded then 1 + length runs else 1)"
      by (simp add: recs am ap)
  qed
  have total: "f = RunGroupingAggregateFunction_Min \<or> f = RunGroupingAggregateFunction_Max \<longrightarrow>
        (\<exists>recs'. createGroupRenderMetadata toNumber heap gid expanded runs f gv isRemaining = Inr recs')"
    by (intro impI) (rule createGroupRenderMetadata_total)
  have policy: "isGroupExpanded Map.empty gid" "\<not> isRemainingGroupExpanded Map.empty gid"
    "isGroupExpanded groupsExpanded gid \<longleftrightarrow> groupsExpanded gid \<noteq> Some False"
    "isRemainingGroupExpanded groupsExpanded gid \<longleftrightarrow> groupsExpanded gid = Some True"
    by (cases "groupsExpanded gid"; simp add: isGroupExpanded_def isRemainingGroupExpanded_def)+
  have pass: "createRunsGroupedByValue toNumber heap valueGetter runData groupsExpanded f groupByMode groupByKey
          = Inr result \<longrightarrow>
        (\<exists>groups ungroupedRuns.
           foldE (groupByValue_step heap valueGetter) ([], []) runData = Inr (groups, ungroupedRuns)
           \<and> length result =
               sum_list (map (\<lambda>(v, members).
                                if isGroupExpanded groupsExpanded (createGroupId groupByMode groupByKey (Some v))
                                then 1 + length members else 1) (ownEntries groups))
               + (if ungroupedRuns = [] then 0
                  else if isRemainingGroupExpanded groupsExpanded (createGroupId groupByMode groupByKey None)
                  then 1 + length ungroupedRuns else 1))"
    by (intro impI) (erule createRunsGroupedByValue_length)
  show ?thesis
    using one total policy pass by - (intro conjI; assumption)
qed

text \<open>
  Claim C7 says that every group of a pass emits one header record, with its aggregated
  metrics and parameters, and then its rows when it is expanded. The code emits no
  record for a group when the aggregation of the header throws: with Average, for a run
  whose tag \<open>env\<close> is \<open>prod\<close> and that has the metric \<open>constructor = 1\<close>, the pass ends with
  a TypeError.
\<close>

theorem group_header_aggregation_throws:
  "getGroupedRowRenderMetadata (\<lambda>s. NaN)
     (\<lambda>r. \<lparr>runInfo = \<lparr>run_uuid = js ''run1''\<rparr>, params = [],
            metrics = [\<lparr>key = js ''constructor'', val = Fin 1, step = Fin 0, timestamp = Fin 10\<rparr>],
            tags = [(js ''env'', \<lparr>key = js ''env'', val = js ''prod''\<rparr>)], datasets = []\<rparr>)
     Map.empty [0]
     \<lparr>mode = RunGroupingMode_Tag, aggregateFunction = RunGroupingAggregateFunction_Average,
      groupByData = js ''env''\<rparr>
   = Inl TypeError"
  by (simp add: grouping_eval aggregateValues_eval)

subsection \<open>The partition by tag or parameter value\<close>

text \<open>
  When the loop of \<open>createRunsGroupedByValue\<close> ends without an exception, every run is in
  exactly one place: in the bucket of its value, or in the remaining runs when it has no
  value or an empty one.
\<close>

lemma value_groups_partition:
  assumes "foldE (groupByValue_step heap valueGetter) ([], []) runData = Inr (groups, ungroupedRuns)"
  shows "distinct (map fst groups)
       \<and> ungroupedRuns = filter (\<lambda>r. groupingValue heap valueGetter r = None) runData
       \<and> (\<forall>v members. map_of groups v = Some members \<longleftrightarrow>
             members = filter (\<lambda>r. groupingValue heap valueGetter r = Some v) runData \<and> members \<noteq> [])"
proof -
  note L = groupByValue_loop_Inr [OF assms]
  from L have "distinct (map fst groups)" by simp
  moreover from L have "ungroupedRuns = filter (\<lambda>r. groupingValue heap valueGetter r = None) runData"
    by blast
  moreover have "map_of groups v = Some members \<longleftrightarrow>
             members = filter (\<lambda>r. groupingValue heap valueGetter r = Some v) runData \<and> members \<noteq> []"
    for v members
  proof -
    from L have m: "map_of groups v =
            (if \<exists>r \<in> set runData. groupingValue heap valueGetter r = Some v
             then Some (filter (\<lambda>r. groupingValue heap valueGetter r = Some v) runData) else None)"
      by blast
    show ?thesis by (auto simp add: m filter_empty_conv)
  qed
  ultimately show ?thesis by blast
qed

text \<open>
  Claim C5 says that every run is placed in exactly one group. The code does so only
  when no extracted value names a property of \<open>Object.prototype\<close>: for a run whose tag
  \<open>env\<close> has the value \<open>constructor\<close> the pass ends with a TypeError and places no run.
\<close>

theorem grouping_by_inherited_value_throws:
  "getGroupedRowRenderMetadata (\<lambda>s. NaN)
     (\<lambda>r. \<lparr>runInfo = \<lparr>run_uuid = js ''run1''\<rparr>, params = [], metrics = [],
            tags = [(js ''env'', \<lparr>key = js ''env'', val = js ''constructor''\<rparr>)], datasets = []\<rparr>)
     Map.empty [0]
     \<lparr>mode = RunGroupingMode_Tag, aggregateFunction = RunGroupingAggregateFunction_Min,
      groupByData = js ''env''\<rparr>
   = Inl TypeError"
  by (simp add: grouping_eval aggregateValues_eval)

end
